theory Spec2Isabelle
  imports Main "HOL-Library.Word"
begin

section \<open>Go values used by the ring buffer\<close>

text \<open>
  The repository holds two variants of one package: the current one (options based
  constructor, \<open>ReadUntilFunc\<close>, \<open>ReadBytes\<close>, \<open>Consume\<close>, \<open>ByteRange\<close>, \<open>CharAt\<close>) and the
  older one it was adapted from (\<open>New(size)\<close>, \<open>Read\<close> and \<open>Write\<close> with
  \<open>ErrTooManyDataToWrite\<close>). Functions of the older variant carry the suffix \<open>_v2\<close>.

  A Go \<open>[]byte\<close> is a list of bytes or \<open>nil\<close> (\<open>None\<close>); slices are taken with
  capacity equal to length. Go's \<open>int\<close> is modelled by \<open>int\<close>: cursor arithmetic is
  bounded by twice the length of the backing array; where an argument supplied by the
  caller enters a sum, the 64-bit wrap-around is written out (\<open>int64\<close>).
  A run-time panic is a value of type \<open>panic\<close>; every operation returns
  \<open>panic + result\<close>.
\<close>

type_synonym byte = "8 word"

datatype error =
    ErrIsFull
  | ErrIsEmpty
  | ErrAccuqireLock
  | ErrOutOfRange
  | ErrInvalidSliceIndices
  | ErrTooManyDataToWrite
  | EOF

datatype panic =
    Panic error
  | IndexOutOfRange
  | SliceBoundsOutOfRange
  | DivideByZero
  | MakesliceLenOutOfRange

definition pbind :: "panic + 'a \<Rightarrow> ('a \<Rightarrow> panic + 'b) \<Rightarrow> panic + 'b" where
  "pbind m f = (case m of Inl e \<Rightarrow> Inl e | Inr x \<Rightarrow> f x)"

definition int64 :: "int \<Rightarrow> int" where
  "int64 x = (x + 2 ^ 63) mod 2 ^ 64 - 2 ^ 63"

text \<open>Go's \<open>%\<close> truncates towards zero and panics on a zero divisor.\<close>

definition go_rem :: "int \<Rightarrow> int \<Rightarrow> panic + int" where
  "go_rem a n = (if n = 0 then Inl DivideByZero else Inr (sgn a * (\<bar>a\<bar> mod \<bar>n\<bar>)))"

definition elems :: "'a list option \<Rightarrow> 'a list" where
  "elems s = (case s of None \<Rightarrow> [] | Some xs \<Rightarrow> xs)"

definition len :: "'a list \<Rightarrow> int" where
  "len xs = int (length xs)"

text \<open>
  The allocation limit of the Go runtime (\<open>runtime.maxAlloc\<close>), which is not part of the
  sources: \<open>2^48\<close> bytes on the 64-bit targets. \<open>make([]byte, n)\<close> panics with
  "makeslice: len out of range" when \<open>n\<close> is negative or above it. An allocation within
  the limit is taken to succeed: running out of the machine's memory is not modelled.
\<close>

definition maxAlloc :: int where
  "maxAlloc = 2 ^ 48"

text \<open>\<open>make([]byte, n)\<close>, \<open>s[i]\<close>, \<open>s[i] = c\<close>, \<open>s[lo:hi]\<close> and \<open>copy(dst[lo:hi], src)\<close>.
  \<open>copy_to\<close> returns the whole of \<open>dst\<close> after the copy into its window.\<close>

definition make_bytes :: "int \<Rightarrow> panic + byte list" where
  "make_bytes n =
     (if n < 0 \<or> maxAlloc < n then Inl MakesliceLenOutOfRange else Inr (replicate (nat n) 0))"

definition index :: "'a list \<Rightarrow> int \<Rightarrow> panic + 'a" where
  "index xs i = (if 0 \<le> i \<and> i < len xs then Inr (xs ! nat i) else Inl IndexOutOfRange)"

definition assign :: "'a list \<Rightarrow> int \<Rightarrow> 'a \<Rightarrow> panic + 'a list" where
  "assign xs i c = (if 0 \<le> i \<and> i < len xs then Inr (xs[nat i := c]) else Inl IndexOutOfRange)"

definition slice :: "'a list \<Rightarrow> int \<Rightarrow> int \<Rightarrow> panic + 'a list" where
  "slice xs lo hi =
     (if 0 \<le> lo \<and> lo \<le> hi \<and> hi \<le> len xs
      then Inr (take (nat (hi - lo)) (drop (nat lo) xs))
      else Inl SliceBoundsOutOfRange)"

definition copy_to :: "'a list \<Rightarrow> int \<Rightarrow> int \<Rightarrow> 'a list \<Rightarrow> panic + 'a list" where
  "copy_to dst lo hi src =
     (if 0 \<le> lo \<and> lo \<le> hi \<and> hi \<le> len dst
      then (let k = min (nat (hi - lo)) (length src)
            in Inr (take (nat lo) dst @ take k src @ drop (nat lo + k) dst))
      else Inl SliceBoundsOutOfRange)"

section \<open>The buffer\<close>

record Buffer =
  buf :: "byte list option"
  size_b :: int
  r :: int
  w :: int
  isFull :: bool

definition DefaultSize :: int where
  "DefaultSize = 4096"

text \<open>Writing through a slice of \<open>b.buf\<close> changes the elements, never whether it is nil.\<close>

definition store :: "Buffer \<Rightarrow> byte list \<Rightarrow> Buffer" where
  "store b xs = b\<lparr>buf := map_option (\<lambda>_. xs) (buf b)\<rparr>"

definition Length :: "Buffer \<Rightarrow> int" where
  "Length b =
     (if w b = r b then (if isFull b then size_b b else 0)
      else if w b > r b then w b - r b
      else size_b b - r b + w b)"

definition Capacity :: "Buffer \<Rightarrow> int" where
  "Capacity b = size_b b"

definition Free :: "Buffer \<Rightarrow> int" where
  "Free b =
     (if w b = r b then (if isFull b then 0 else size_b b)
      else if w b < r b then r b - w b
      else size_b b - w b + r b)"

definition IsFull :: "Buffer \<Rightarrow> bool" where
  "IsFull b = isFull b"

definition IsEmpty :: "Buffer \<Rightarrow> bool" where
  "IsEmpty b = (\<not> isFull b \<and> w b = r b)"

definition Reset :: "Buffer \<Rightarrow> Buffer" where
  "Reset b = b\<lparr>r := 0, w := 0, isFull := False\<rparr>"

section \<open>Writing\<close>

definition Write :: "Buffer \<Rightarrow> byte list \<Rightarrow> panic + ((int \<times> error option) \<times> Buffer)" where
  "Write b p =
     (if len p = 0 then Inr ((0, None), b)
      else if isFull b then Inr ((0, Some ErrIsFull), b)
      else
        let n0 = (if w b \<ge> r b then size_b b - w b + r b else r b - w b);
            n = (if n0 > len p then len p else n0);
            err = (if n0 > len p then None else if len p > n0 then Some ErrIsFull else None)
        in pbind
             (if w b \<ge> r b then
                (let c1 = size_b b - w b in
                 if c1 \<ge> n then
                   pbind (slice p 0 n) (\<lambda>s.
                   copy_to (elems (buf b)) (w b) (len (elems (buf b))) s)
                 else
                   pbind (slice p 0 c1) (\<lambda>s1.
                   pbind (copy_to (elems (buf b)) (w b) (len (elems (buf b))) s1) (\<lambda>buf1.
                   pbind (slice p c1 (len p)) (\<lambda>s2.
                   copy_to buf1 0 (n - c1) s2))))
              else
                pbind (slice p 0 n) (\<lambda>s.
                copy_to (elems (buf b)) (w b) (w b + n) s))
             (\<lambda>buf'.
                pbind (go_rem (w b + n) (size_b b)) (\<lambda>w'.
                Inr ((n, err),
                     (store b buf')\<lparr>w := w', isFull := (if w' = r b then True else isFull b)\<rparr>))))"

definition writeByte :: "Buffer \<Rightarrow> byte \<Rightarrow> panic + (error option \<times> Buffer)" where
  "writeByte b c =
     (if w b = r b \<and> isFull b then Inr (Some ErrIsFull, b)
      else
        pbind (assign (elems (buf b)) (w b) c) (\<lambda>buf'.
        let w1 = w b + 1;
            w2 = (if w1 = size_b b then 0 else w1)
        in Inr (None, (store b buf')\<lparr>w := w2, isFull := (if w2 = r b then True else isFull b)\<rparr>)))"

definition WriteByte :: "Buffer \<Rightarrow> byte \<Rightarrow> panic + (error option \<times> Buffer)" where
  "WriteByte b c = writeByte b c"

section \<open>Reading\<close>

function ReadUntilFunc_loop :: "Buffer \<Rightarrow> (byte \<Rightarrow> bool) \<Rightarrow> int \<Rightarrow> int \<Rightarrow> panic + (int \<times> bool)" where
  "ReadUntilFunc_loop b f n i =
     (if i < n then
        (case go_rem (r b + i) (size_b b) of
           Inl e \<Rightarrow> Inl e
         | Inr j \<Rightarrow>
             (case index (elems (buf b)) j of
                Inl e \<Rightarrow> Inl e
              | Inr c \<Rightarrow> if f c then Inr (i + 1, True) else ReadUntilFunc_loop b f n (i + 1)))
      else Inr (i, False))"
  by pat_completeness auto
termination
  by (relation "measure (\<lambda>(b, f, n, i). nat (n - i))") auto

declare ReadUntilFunc_loop.simps [simp del]

definition ReadUntilFunc ::
  "Buffer \<Rightarrow> byte list \<Rightarrow> (byte \<Rightarrow> bool) option
     \<Rightarrow> panic + ((int \<times> bool \<times> error option) \<times> byte list \<times> Buffer)" where
  "ReadUntilFunc b p f =
     (let bLen = Length b;
          n = (if bLen > len p then len p else bLen)
      in if n = 0 then Inr ((0, False, Some EOF), p, b)
         else
           pbind
             (case f of
                None \<Rightarrow> Inr (n, False, None)
              | Some g \<Rightarrow>
                  pbind (ReadUntilFunc_loop b g n 0) (\<lambda>(i, atDelim).
                  Inr (i, atDelim, if i = bLen \<and> \<not> atDelim then Some EOF else None)))
             (\<lambda>(n, atDelim, err).
                if n > 0 then
                  pbind
                    (if r b + n \<le> size_b b then
                       pbind (slice (elems (buf b)) (r b) (r b + n)) (\<lambda>s.
                       copy_to p 0 (len p) s)
                     else
                       (let c1 = size_b b - r b in
                        pbind (slice (elems (buf b)) (r b) (size_b b)) (\<lambda>s1.
                        pbind (copy_to p 0 (len p) s1) (\<lambda>p1.
                        let c2 = n - c1 in
                        pbind (slice (elems (buf b)) 0 c2) (\<lambda>s2.
                        copy_to p1 c1 (len p) s2)))))
                    (\<lambda>p'.
                       pbind (go_rem (r b + n) (size_b b)) (\<lambda>r'.
                       Inr ((n, atDelim, err), p', b\<lparr>r := r', isFull := False\<rparr>)))
                else Inr ((n, atDelim, err), p, b)))"

definition Read :: "Buffer \<Rightarrow> byte list \<Rightarrow> panic + ((int \<times> error option) \<times> byte list \<times> Buffer)" where
  "Read b p =
     pbind (ReadUntilFunc b p None) (\<lambda>((n, atDelim, err), p', b'). Inr ((n, err), p', b'))"

definition ReadByte :: "Buffer \<Rightarrow> panic + ((byte \<times> error option) \<times> Buffer)" where
  "ReadByte b =
     (if w b = r b \<and> \<not> isFull b then Inr ((0, Some ErrIsEmpty), b)
      else
        pbind (index (elems (buf b)) (r b)) (\<lambda>c.
        let r1 = r b + 1;
            r2 = (if r1 = size_b b then 0 else r1)
        in Inr ((c, None), b\<lparr>r := r2, isFull := False\<rparr>)))"

definition Consume :: "Buffer \<Rightarrow> int \<Rightarrow> panic + Buffer" where
  "Consume b n =
     (if n = 0 then Inr b
      else
        let bLen = Length b in
        if n > bLen then Inl (Panic ErrOutOfRange)
        else
          pbind (go_rem (int64 (r b + n)) (size_b b)) (\<lambda>r'.
          Inr (b\<lparr>r := r', isFull := (if isFull b then False else isFull b)\<rparr>)))"

section \<open>Peeking\<close>

definition byteRange :: "Buffer \<Rightarrow> int \<Rightarrow> int \<Rightarrow> panic + byte list option" where
  "byteRange b i j =
     (if i = j then
        (if isFull b then
           pbind (make_bytes (size_b b)) (\<lambda>buf0.
           pbind (slice (elems (buf b)) i (len (elems (buf b)))) (\<lambda>s1.
           pbind (copy_to buf0 0 (len buf0) s1) (\<lambda>buf1.
           pbind (slice (elems (buf b)) 0 j) (\<lambda>s2.
           pbind (copy_to buf1 (size_b b - i) (len buf1) s2) (\<lambda>buf2.
           Inr (Some buf2))))))
         else Inr None)
      else if i < j then
        pbind (make_bytes (j - i)) (\<lambda>buf0.
        pbind (slice (elems (buf b)) i j) (\<lambda>s.
        pbind (copy_to buf0 0 (len buf0) s) (\<lambda>buf1.
        Inr (Some buf1))))
      else
        pbind (make_bytes (size_b b - i + j)) (\<lambda>buf0.
        pbind (slice (elems (buf b)) i (size_b b)) (\<lambda>s1.
        pbind (copy_to buf0 0 (len buf0) s1) (\<lambda>buf1.
        pbind (slice (elems (buf b)) 0 j) (\<lambda>s2.
        pbind (copy_to buf1 (size_b b - i) (len buf1) s2) (\<lambda>buf2.
        Inr (Some buf2)))))))"

definition Bytes :: "Buffer \<Rightarrow> panic + byte list option" where
  "Bytes b = byteRange b (r b) (w b)"

definition CharAt :: "Buffer \<Rightarrow> int \<Rightarrow> panic + byte" where
  "CharAt b n =
     (if IsEmpty b then Inl (Panic ErrOutOfRange)
      else pbind (go_rem (int64 (r b + n)) (size_b b)) (\<lambda>j. index (elems (buf b)) j))"

text \<open>
  Modelled from the spec: \<open>option.New\<close> of the external module \<open>gopkg.in/option.v0\<close> is
  not among the sources. The spec describes an optional-configuration construction
  pattern: a zero value of the configured type is created, the default setters are
  applied to it, then the caller's options in the order given.
\<close>

definition option_New :: "'a \<Rightarrow> ('a \<Rightarrow> panic + 'a) list \<Rightarrow> ('a \<Rightarrow> panic + 'a) list \<Rightarrow> panic + 'a" where
  "option_New zero options defaults = foldl pbind (Inr zero) (defaults @ options)"

record byteRangeOptions =
  o_start :: int
  o_end :: int

type_synonym ByteRangeOption = "byteRangeOptions \<Rightarrow> panic + byteRangeOptions"

definition Start :: "int \<Rightarrow> ByteRangeOption" where
  "Start s = (\<lambda>opt. Inr (opt\<lparr>o_start := s\<rparr>))"

definition End :: "int \<Rightarrow> ByteRangeOption" where
  "End e = (\<lambda>opt. Inr (opt\<lparr>o_end := e\<rparr>))"

definition ByteRange :: "Buffer \<Rightarrow> ByteRangeOption list \<Rightarrow> panic + byte list option" where
  "ByteRange b startEnd =
     (let bLen = Length b in
      pbind (option_New \<lparr>o_start = 0, o_end = 0\<rparr> startEnd [\<lambda>opt. Inr (opt\<lparr>o_end := bLen\<rparr>)]) (\<lambda>opts.
      pbind
        (if o_start opts < 0 then
           (let s = int64 (bLen - o_start opts)
            in if s < 0 then Inl (Panic ErrOutOfRange) else Inr s)
         else Inr (o_start opts)) (\<lambda>s.
      if s > bLen then Inl (Panic ErrOutOfRange)
      else
        pbind
          (if o_end opts < 0 then
             (let e = int64 (bLen - o_end opts)
              in if e < 0 then Inl (Panic ErrOutOfRange) else Inr e)
           else Inr (o_end opts)) (\<lambda>e.
        if e > bLen then Inl (Panic ErrOutOfRange)
        else if e < s then Inl (Panic ErrInvalidSliceIndices)
        else if s = e then Inr None
        else
          pbind (go_rem (r b + s) (size_b b)) (\<lambda>i.
          pbind (go_rem (r b + e) (size_b b)) (\<lambda>j.
          byteRange b i j))))))"

section \<open>Scanning for a delimiter\<close>

text \<open>The loop of \<open>ReadBytes\<close> has no bound of its own: not returning is \<open>None\<close>.\<close>

partial_function (option) ReadBytes_loop ::
  "Buffer \<Rightarrow> byte \<Rightarrow> int \<Rightarrow> (panic + (int \<times> int \<times> error option)) option" where
  "ReadBytes_loop b delim i =
     (case go_rem (r b + i) (size_b b) of
        Inl e \<Rightarrow> Some (Inl e)
      | Inr j \<Rightarrow>
          if i > 0 \<and> j = w b then Some (Inr (i, j, Some EOF))
          else
            (case index (elems (buf b)) j of
               Inl e \<Rightarrow> Some (Inl e)
             | Inr c \<Rightarrow>
                 if c = delim then Some (Inr (i + 1, j + 1, None))
                 else ReadBytes_loop b delim (i + 1)))"

declare ReadBytes_loop.simps [code]

definition ReadBytes ::
  "Buffer \<Rightarrow> byte \<Rightarrow> (panic + ((byte list option \<times> error option) \<times> Buffer)) option" where
  "ReadBytes b delim =
     (if w b = r b \<and> \<not> isFull b then Some (Inr ((None, None), b))
      else
        (case ReadBytes_loop b delim 0 of
           None \<Rightarrow> None
         | Some (Inl e) \<Rightarrow> Some (Inl e)
         | Some (Inr (i, j, err)) \<Rightarrow>
             Some
               (pbind (make_bytes i) (\<lambda>p0.
                pbind
                  (if j > r b then
                     pbind (slice (elems (buf b)) (r b) j) (\<lambda>s.
                     copy_to p0 0 (len p0) s)
                   else
                     pbind (slice (elems (buf b)) (r b) (len (elems (buf b)))) (\<lambda>s1.
                     pbind (copy_to p0 0 (size_b b - r b) s1) (\<lambda>p1.
                     pbind (slice (elems (buf b)) 0 j) (\<lambda>s2.
                     copy_to p1 (size_b b - r b) (len p1) s2))))
                  (\<lambda>p. Inr ((Some p, err), b))))))"

function ReadBytesFunc_loop ::
  "Buffer \<Rightarrow> (byte \<Rightarrow> bool) \<Rightarrow> int \<Rightarrow> int \<Rightarrow> panic + (int \<times> error option)" where
  "ReadBytesFunc_loop b f bLen i =
     (if i < bLen then
        (case go_rem (r b + i) (size_b b) of
           Inl e \<Rightarrow> Inl e
         | Inr j \<Rightarrow>
             (case index (elems (buf b)) j of
                Inl e \<Rightarrow> Inl e
              | Inr c \<Rightarrow> if f c then Inr (i + 1, None) else ReadBytesFunc_loop b f bLen (i + 1)))
      else Inr (i, Some EOF))"
  by pat_completeness auto
termination
  by (relation "measure (\<lambda>(b, f, bLen, i). nat (bLen - i))") auto

declare ReadBytesFunc_loop.simps [simp del]

definition ReadBytesFunc ::
  "Buffer \<Rightarrow> (byte \<Rightarrow> bool) \<Rightarrow> panic + ((byte list option \<times> error option) \<times> Buffer)" where
  "ReadBytesFunc b f =
     (let bLen = Length b in
      pbind (ReadBytesFunc_loop b f bLen 0) (\<lambda>(i, err).
      if i > 0 then
        pbind (go_rem (r b + i) (size_b b)) (\<lambda>j.
        pbind (byteRange b (r b) j) (\<lambda>p.
        Inr ((p, err), b)))
      else Inr ((None, err), b)))"

section \<open>Construction\<close>

type_synonym Option = "Buffer \<Rightarrow> panic + Buffer"

definition WithBuffer :: "byte list option \<Rightarrow> Option" where
  "WithBuffer s = (\<lambda>b. Inr (b\<lparr>buf := s, size_b := len (elems s)\<rparr>))"

definition WithSize :: "int \<Rightarrow> Option" where
  "WithSize n = (\<lambda>b. pbind (make_bytes n) (\<lambda>xs. Inr (b\<lparr>buf := Some xs, size_b := n\<rparr>)))"

definition New :: "Option list \<Rightarrow> panic + Buffer" where
  "New options =
     pbind (option_New \<lparr>buf = None, size_b = 0, r = 0, w = 0, isFull = False\<rparr> options []) (\<lambda>b.
     if buf b = None then WithSize DefaultSize b else Inr b)"

section \<open>The older variant\<close>

definition New_v2 :: "int \<Rightarrow> panic + Buffer" where
  "New_v2 n =
     pbind (make_bytes n) (\<lambda>xs.
     Inr \<lparr>buf = Some xs, size_b = n, r = 0, w = 0, isFull = False\<rparr>)"

definition Read_v2 :: "Buffer \<Rightarrow> byte list \<Rightarrow> panic + ((int \<times> error option) \<times> byte list \<times> Buffer)" where
  "Read_v2 b p =
     (if len p = 0 then Inr ((0, None), p, b)
      else if w b = r b \<and> \<not> isFull b then Inr ((0, Some ErrIsEmpty), p, b)
      else if w b > r b then
        (let n0 = w b - r b;
             n = (if n0 > len p then len p else n0)
         in pbind (slice (elems (buf b)) (r b) (r b + n)) (\<lambda>s.
            pbind (copy_to p 0 (len p) s) (\<lambda>p'.
            pbind (go_rem (r b + n) (size_b b)) (\<lambda>r'.
            Inr ((n, None), p', b\<lparr>r := r'\<rparr>)))))
      else
        (let n0 = size_b b - r b + w b;
             n = (if n0 > len p then len p else n0)
         in pbind
              (if r b + n \<le> size_b b then
                 pbind (slice (elems (buf b)) (r b) (r b + n)) (\<lambda>s.
                 copy_to p 0 (len p) s)
               else
                 (let c1 = size_b b - r b in
                  pbind (slice (elems (buf b)) (r b) (size_b b)) (\<lambda>s1.
                  pbind (copy_to p 0 (len p) s1) (\<lambda>p1.
                  let c2 = n - c1 in
                  pbind (slice (elems (buf b)) 0 c2) (\<lambda>s2.
                  copy_to p1 c1 (len p) s2)))))
              (\<lambda>p'.
                 pbind (go_rem (r b + n) (size_b b)) (\<lambda>r'.
                 Inr ((n, None), p', b\<lparr>r := r', isFull := False\<rparr>)))))"

definition Write_v2 :: "Buffer \<Rightarrow> byte list \<Rightarrow> panic + ((int \<times> error option) \<times> Buffer)" where
  "Write_v2 b p0 =
     (if len p0 = 0 then Inr ((0, None), b)
      else if isFull b then Inr ((0, Some ErrIsFull), b)
      else
        let avail = (if w b \<ge> r b then size_b b - w b + r b else r b - w b)
        in pbind
             (if len p0 > avail
              then pbind (slice p0 0 avail) (\<lambda>p. Inr (Some ErrTooManyDataToWrite, p))
              else Inr (None, p0))
             (\<lambda>(err, p).
                let n = len p
                in pbind
                     (if w b \<ge> r b then
                        (let c1 = size_b b - w b in
                         if c1 \<ge> n then
                           pbind (copy_to (elems (buf b)) (w b) (len (elems (buf b))) p) (\<lambda>buf'.
                           Inr (buf', w b + n))
                         else
                           pbind (slice p 0 c1) (\<lambda>s1.
                           pbind (copy_to (elems (buf b)) (w b) (len (elems (buf b))) s1) (\<lambda>buf1.
                           let c2 = n - c1 in
                           pbind (slice p c1 (len p)) (\<lambda>s2.
                           pbind (copy_to buf1 0 (len buf1) s2) (\<lambda>buf'.
                           Inr (buf', c2))))))
                      else
                        pbind (copy_to (elems (buf b)) (w b) (len (elems (buf b))) p) (\<lambda>buf'.
                        Inr (buf', w b + n)))
                     (\<lambda>(buf', w1).
                        let w2 = (if w1 = size_b b then 0 else w1)
                        in Inr ((n, err),
                                (store b buf')\<lparr>w := w2,
                                  isFull := (if w2 = r b then True else isFull b)\<rparr>))))"

section \<open>Specification notions\<close>

text \<open>
  The data-model invariant of the buffer: the backing array has the recorded size, the
  size is positive (and within the allocation limit, as the length of every byte slice
  is), both cursors are indices into the array, and the full flag is only set when the
  cursors coincide.
\<close>

definition wf :: "Buffer \<Rightarrow> bool" where
  "wf b =
     (len (elems (buf b)) = size_b b \<and> 0 < size_b b \<and> size_b b \<le> maxAlloc \<and>
      0 \<le> r b \<and> r b < size_b b \<and> 0 \<le> w b \<and> w b < size_b b \<and>
      (if isFull b then w b = r b else True))"

text \<open>The occupied region: \<open>Length\<close> bytes starting at the read cursor, read circularly.\<close>

definition occupied :: "Buffer \<Rightarrow> byte list" where
  "occupied b = take (nat (Length b)) (rotate (nat (r b)) (elems (buf b)))"

text \<open>Overwriting a ring \<open>xs\<close> circularly with \<open>ys\<close>, starting at index \<open>k\<close>.\<close>

definition ring_put :: "'a list \<Rightarrow> nat \<Rightarrow> 'a list \<Rightarrow> 'a list" where
  "ring_put xs k ys = rotate (length xs - k) (ys @ drop (length ys) (rotate k xs))"

definition ex4 :: Buffer where
  "ex4 = \<lparr>buf = Some [0, 0, 0, 0], size_b = 4, r = 3, w = 3, isFull = False\<rparr>"

definition ex_cap0 :: Buffer where
  "ex_cap0 = \<lparr>buf = Some [], size_b = 0, r = 0, w = 0, isFull = False\<rparr>"

definition ex_zero4 :: Buffer where
  "ex_zero4 = \<lparr>buf = Some [0, 0, 0, 0], size_b = 4, r = 1, w = 1, isFull = False\<rparr>"

definition ex_new4 :: Buffer where
  "ex_new4 = \<lparr>buf = Some [0, 0, 0, 0], size_b = 4, r = 0, w = 0, isFull = False\<rparr>"

definition ex_abc4 :: Buffer where
  "ex_abc4 = \<lparr>buf = Some [1, 2, 3, 0], size_b = 4, r = 0, w = 3, isFull = False\<rparr>"

definition ex_neg4 :: Buffer where
  "ex_neg4 = \<lparr>buf = Some [1, 2, 3, 0], size_b = 4, r = - 3, w = 3, isFull = False\<rparr>"

definition ex_1234 :: Buffer where
  "ex_1234 = \<lparr>buf = Some [1, 2, 3, 4], size_b = 4, r = 0, w = 0, isFull = True\<rparr>"

definition ex_drained :: Buffer where
  "ex_drained = \<lparr>buf = Some [1, 2, 3, 4], size_b = 4, r = 0, w = 0, isFull = False\<rparr>"

definition ex_stale :: Buffer where
  "ex_stale = \<lparr>buf = Some [5, 6, 3, 4], size_b = 4, r = 0, w = 2, isFull = False\<rparr>"

definition upto_first :: "('a \<Rightarrow> bool) \<Rightarrow> 'a list \<Rightarrow> 'a list" where
  "upto_first f xs = take (Suc (length (takeWhile (\<lambda>c. \<not> f c) xs))) xs"

definition ex_csv :: Buffer where
  "ex_csv = \<lparr>buf = Some [97, 98, 44, 99, 100, 44, 101, 102], size_b = 8, r = 0, w = 0,
             isFull = True\<rparr>"

definition ex_ef :: Buffer where
  "ex_ef = \<lparr>buf = Some [97, 98, 44, 99, 100, 44, 101, 102], size_b = 8, r = 6, w = 0,
            isFull = False\<rparr>"

section \<open>Lists, slices and cursors\<close>

lemma maxAlloc_value [simp]: "maxAlloc = 281474976710656"
  by (simp add: maxAlloc_def)

lemma rotate_le: "k \<le> length xs \<Longrightarrow> rotate k xs = drop k xs @ take k xs"
  by (cases "k = length xs") (simp_all add: rotate_drop_take)

lemma length_ring_put: "length ys \<le> length xs \<Longrightarrow> length (ring_put xs k ys) = length xs"
  by (simp add: ring_put_def)

lemma put_nowrap:
  assumes "k + length ys \<le> length xs"
  shows "take k xs @ ys @ drop (k + length ys) xs = ring_put xs k ys"
  using assms by (simp add: ring_put_def rotate_le add.commute)

lemma put_wrap:
  assumes "k < length xs" "length xs < k + length ys" "length ys \<le> length xs"
  shows "take (length ys - (length xs - k)) (drop (length xs - k) ys)
           @ drop (length ys - (length xs - k)) (take k xs @ take (length xs - k) ys)
         = ring_put xs k ys"
  using assms by (simp add: ring_put_def rotate_le)

lemma rotate_mod_add: "rotate ((a + b) mod length xs) xs = rotate a (rotate b xs)"
  by (metis rotate_conv_mod rotate_rotate)

lemma take_rotate_advance:
  assumes "n \<le> L" "L \<le> length xs"
  shows "take (L - n) (rotate ((R + n) mod length xs) xs) = drop n (take L (rotate R xs))"
proof -
  have "rotate ((R + n) mod length xs) xs = rotate n (rotate R xs)"
    by (metis add.commute rotate_mod_add)
  also have "\<dots> = drop n (rotate R xs) @ take n (rotate R xs)"
    using assms by (simp add: rotate_le)
  finally show ?thesis
    using assms by (simp add: drop_take)
qed

lemma take_rotate_put:
  assumes "R < length xs" "W < length xs"
    and L: "L = (if R \<le> W then W - R else length xs - R + W)"
    and "L + length ys \<le> length xs"
  shows "take (L + length ys) (rotate R (ring_put xs W ys)) = take L (rotate R xs) @ ys"
proof -
  let ?S = "length xs" and ?n = "length ys"
  let ?Z = "ys @ drop ?n (rotate W xs)"
  have lenZ: "length ?Z = ?S" using assms by simp
  have W: "rotate W xs = rotate L (rotate R xs)"
  proof -
    have "W = (L + R) mod ?S" using assms by (auto simp: L)
    then show ?thesis by (metis rotate_conv_mod rotate_rotate)
  qed
  have "(R + (?S - W)) mod ?S = (?S - L) mod ?S"
  proof (cases "R \<le> W")
    case True
    with assms have "R + (?S - W) = ?S - L" by (simp add: L)
    then show ?thesis by simp
  next
    case False
    with assms have "R + (?S - W) = ?S + (R - W)" "?S - L = R - W" by (simp_all add: L)
    then show ?thesis by simp
  qed
  then have "rotate R (ring_put xs W ys) = rotate (?S - L) ?Z"
    unfolding ring_put_def by (metis lenZ rotate_conv_mod rotate_rotate)
  also have "\<dots> = drop (?S - L) ?Z @ take (?S - L) ?Z"
    using lenZ by (simp add: rotate_le del: length_append length_drop)
  finally have "take (L + ?n) (rotate R (ring_put xs W ys)) = drop (?S - L) ?Z @ ys"
    using assms(4) lenZ by simp
  moreover have "drop (?S - L) ?Z = take L (rotate R xs)"
    using assms(4) by (simp add: W rotate_le)
  ultimately show ?thesis by simp
qed


lemma pbind_simps [simp]: "pbind (Inr x) f = f x" "pbind (Inl e) f = Inl e"
  by (simp_all add: pbind_def)

lemma go_rem_nat: "0 < S \<Longrightarrow> go_rem (int a) (int S) = Inr (int (a mod S))"
  by (simp add: go_rem_def zmod_int sgn_if)

lemma slice_nat:
  "lo \<le> hi \<Longrightarrow> hi \<le> length xs \<Longrightarrow> slice xs (int lo) (int hi) = Inr (take (hi - lo) (drop lo xs))"
  by (simp add: slice_def len_def flip: of_nat_diff)

lemma copy_to_nat:
  "lo \<le> hi \<Longrightarrow> hi \<le> length dst \<Longrightarrow>
   copy_to dst (int lo) (int hi) src =
     Inr (take lo dst @ take (min (hi - lo) (length src)) src
            @ drop (lo + min (hi - lo) (length src)) dst)"
  by (simp add: copy_to_def len_def Let_def flip: of_nat_diff)

lemma copy_to_fit:
  "lo + length src \<le> hi \<Longrightarrow> hi \<le> length dst \<Longrightarrow>
   copy_to dst (int lo) (int hi) src = Inr (take lo dst @ src @ drop (lo + length src) dst)"
proof -
  assume a: "lo + length src \<le> hi" "hi \<le> length dst"
  then have "min (hi - lo) (length src) = length src" by simp
  with a show ?thesis by (simp add: copy_to_nat)
qed

lemma wf_nat:
  assumes "wf b"
  obtains xs R W S where "buf b = Some xs" "length xs = S" "r b = int R" "w b = int W"
    "size_b b = int S" "R < S" "W < S" "isFull b \<longrightarrow> W = R" "int S < 2 ^ 62"
    "int S \<le> 2 ^ 48"
proof -
  from assms obtain xs where xs: "buf b = Some xs"
    by (cases "buf b") (auto simp: wf_def elems_def len_def)
  show ?thesis
    by (rule that [of xs "nat (size_b b)" "nat (r b)" "nat (w b)"])
      (use assms xs in \<open>auto simp: wf_def elems_def len_def split: if_splits\<close>)
qed

lemma Write_wf:
  assumes "wf b" "\<not> isFull b" "p \<noteq> []"
  shows "Write b p =
     Inr ((min (Free b) (len p), if Free b < len p then Some ErrIsFull else None),
          (store b (ring_put (elems (buf b)) (nat (w b)) (take (nat (Free b)) p)))
            \<lparr>w := (w b + min (Free b) (len p)) mod size_b b,
             isFull := ((w b + min (Free b) (len p)) mod size_b b = r b)\<rparr>)"
proof -
  from assms(1) obtain xs R W S where b: "buf b = Some xs" "length xs = S" "r b = int R"
    "w b = int W" "size_b b = int S" "R < S" "W < S" by (rule wf_nat)
  define F where "F = (if R \<le> W then S - W + R else R - W)"
  have F: "Free b = int F" "0 < F" "F \<le> S"
    using b assms(2) by (auto simp: Free_def F_def)
  define n where "n = min F (length p)"
  have n: "min (Free b) (len p) = int n" "0 < n" "n \<le> F" "n \<le> length p"
    using F assms(3) by (auto simp: n_def len_def)
  define ys where "ys = take F p"
  have ys: "length ys = n" "take n p = ys" by (auto simp: ys_def n_def min_def)
  have lp: "len p = int (length p)" by (simp add: len_def)
  let ?copy = "(if w b \<ge> r b then
                (let c1 = size_b b - w b in
                 if c1 \<ge> int n then
                   pbind (slice p 0 (int n)) (\<lambda>s.
                   copy_to (elems (buf b)) (w b) (len (elems (buf b))) s)
                 else
                   pbind (slice p 0 c1) (\<lambda>s1.
                   pbind (copy_to (elems (buf b)) (w b) (len (elems (buf b))) s1) (\<lambda>buf1.
                   pbind (slice p c1 (len p)) (\<lambda>s2.
                   copy_to buf1 0 (int n - c1) s2))))
              else
                pbind (slice p 0 (int n)) (\<lambda>s.
                copy_to (elems (buf b)) (w b) (w b + int n) s))"
  have copy: "?copy = Inr (ring_put xs W ys)"
  proof (cases "R \<le> W")
    case True
    have d: "(int n \<le> int S - int W) = (n \<le> S - W)" using b by auto
    show ?thesis
    proof (cases "n \<le> S - W")
      case le: True
      have "slice p 0 (int n) = Inr ys"
        using slice_nat [of 0 n p] n ys by simp
      moreover have "copy_to xs (int W) (int S) ys = Inr (ring_put xs W ys)"
      proof -
        have m: "min (S - W) (length ys) = length ys" "W + length ys \<le> length xs"
          using le ys b by simp_all
        show ?thesis
          using copy_to_nat [of W S xs ys] put_nowrap [OF m(2)] b m(1) by simp
      qed
      ultimately show ?thesis
        using b True le by (simp add: elems_def len_def Let_def d)
    next
      case gt: False
      let ?c1 = "S - W"
      have s1: "slice p 0 (int ?c1) = Inr (take ?c1 p)"
        using slice_nat [of 0 ?c1 p] n gt by simp
      have cp1: "copy_to xs (int W) (int S) (take ?c1 p) = Inr (take W xs @ take ?c1 p)"
        using copy_to_nat [of W S xs "take ?c1 p"] b n gt by (simp add: min_def)
      have s2: "slice p (int ?c1) (int (length p)) = Inr (drop ?c1 p)"
        using slice_nat [of ?c1 "length p" p] n gt by simp
      have cp2: "copy_to (take W xs @ take ?c1 p) (int 0) (int (n - ?c1)) (drop ?c1 p)
                   = Inr (ring_put xs W ys)"
      proof -
        have "n \<le> S" using n F by simp
        then have "copy_to (take W xs @ take ?c1 p) (int 0) (int (n - ?c1)) (drop ?c1 p)
              = Inr (take (n - ?c1) (drop ?c1 p) @ drop (n - ?c1) (take W xs @ take ?c1 p))"
          using copy_to_nat [of 0 "n - ?c1" "take W xs @ take ?c1 p" "drop ?c1 p"] b n gt
          by (simp add: min_def)
        moreover have "take (n - ?c1) (drop ?c1 p) = take (length ys - (length xs - W)) (drop (length xs - W) ys)"
          unfolding ys(2) [symmetric] using b n gt by (simp add: drop_take min_def)
        moreover have "take ?c1 p = take (length xs - W) ys"
          unfolding ys(2) [symmetric] using b n gt by (simp add: min_def)
        ultimately show ?thesis
          using put_wrap [of W xs ys] b ys gt \<open>n \<le> S\<close> by simp
      qed
      have e: "int n - (int S - int W) = int n + int W - int S" by simp
      show ?thesis
        using b True gt s1 cp1 s2 cp2 by (simp add: elems_def len_def Let_def d e)
    qed
  next
    case False
    then have le: "W + n \<le> S" using n b by (simp add: F_def)
    have "slice p 0 (int n) = Inr ys"
      using slice_nat [of 0 n p] n ys by simp
    moreover have "copy_to xs (int W) (int (W + n)) ys = Inr (ring_put xs W ys)"
      using copy_to_nat [of W "W + n" xs ys] put_nowrap [of W ys xs] b ys le by simp
    ultimately show ?thesis
      using b False by (simp add: elems_def)
  qed
  have n0: "(if w b \<ge> r b then size_b b - w b + r b else r b - w b) = int F"
    using b by (auto simp: F_def)
  have rem: "go_rem (w b + int n) (size_b b) = Inr (int ((W + n) mod S))"
    using go_rem_nat [of S "W + n"] b by simp
  have md: "(w b + int n) mod size_b b = int ((W + n) mod S)"
    using b by (simp add: zmod_int)
  have "Write b p = pbind ?copy (\<lambda>buf'.
                pbind (go_rem (w b + int n) (size_b b)) (\<lambda>w'.
                Inr ((int n, if int F < len p then Some ErrIsFull else None),
                     (store b buf')\<lparr>w := w', isFull := (if w' = r b then True else isFull b)\<rparr>)))"
    unfolding Write_def n0 Let_def using assms n by (auto simp: lp n_def)
  then show ?thesis
    unfolding copy rem n(1) md using assms(2) b(1,3,4) F(1) by (simp add: ys_def elems_def)
qed


lemma nat_int_diff: "nat (int a - int b) = a - b"
  by arith

lemma store_simps [simp]:
  "r (store b xs) = r b" "w (store b xs) = w b" "size_b (store b xs) = size_b b"
  "isFull (store b xs) = isFull b" "buf (store b xs) = map_option (\<lambda>_. xs) (buf b)"
  by (simp_all add: store_def)

lemma Length_Free: "Length b + Free b = Capacity b"
  by (simp add: Length_def Free_def Capacity_def)

lemma wf_Length: "wf b \<Longrightarrow> 0 \<le> Length b \<and> Length b \<le> Capacity b"
  by (auto simp: wf_def Length_def Capacity_def split: if_splits)

lemma advance_wf:
  assumes "wf b" "0 < n" "n \<le> Length b"
  defines "b' \<equiv> b\<lparr>r := (r b + n) mod size_b b, isFull := False\<rparr>"
  shows "wf b'" "Length b' = Length b - n" "occupied b' = drop (nat n) (occupied b)"
proof -
  from assms(1) obtain xs R W S where b: "buf b = Some xs" "length xs = S" "r b = int R"
    "w b = int W" "size_b b = int S" "R < S" "W < S" and full: "isFull b \<longrightarrow> W = R"
    and big: "int S < 2 ^ 62" by (rule wf_nat)
  define L where "L = (if isFull b then S else if R \<le> W then W - R else S - R + W)"
  have L: "Length b = int L" "L \<le> S"
    using b full by (auto simp: Length_def L_def)
  define k where "k = nat n"
  have k: "n = int k" "0 < k" "k \<le> L"
    using assms(2,3) L by (auto simp: k_def)
  have r': "r b' = int ((R + k) mod S)"
    using b k by (simp add: b'_def zmod_int)
  define R' where "R' = (if R + k < S then R + k else R + k - S)"
  have R': "(R + k) mod S = R'" "R' < S"
    using b k L by (auto simp: R'_def mod_if)
  show "wf b'"
    using assms(1) b r' R' by (simp add: wf_def) (simp add: b'_def)
  have L': "Length b' = int (L - k)"
    using b k L full r' unfolding R'(1)
    by (auto simp: Length_def b'_def L_def R'_def split: if_splits)
  then show "Length b' = Length b - n"
    using k L by simp
  show "occupied b' = drop (nat n) (occupied b)"
    using take_rotate_advance [of k L xs R] b k L r' L'
    by (simp add: occupied_def elems_def nat_int_diff) (simp add: b'_def)
qed


lemma put_wf:
  assumes "wf b" "\<not> isFull b" "0 < n" "n \<le> Free b" "length ys = nat n"
  defines "b' \<equiv> (store b (ring_put (elems (buf b)) (nat (w b)) ys))
                    \<lparr>w := (w b + n) mod size_b b, isFull := ((w b + n) mod size_b b = r b)\<rparr>"
  shows "wf b'" "Length b' = Length b + n" "occupied b' = occupied b @ ys"
    "r b' = r b" "size_b b' = size_b b"
proof -
  from assms(1) obtain xs R W S where b: "buf b = Some xs" "length xs = S" "r b = int R"
    "w b = int W" "size_b b = int S" "R < S" "W < S" by (rule wf_nat)
  define L where "L = (if R \<le> W then W - R else S - R + W)"
  have L: "Length b = int L" "Free b = int (S - L)" "L < S"
    using b assms(2) by (auto simp: Length_def Free_def L_def)
  define k where "k = nat n"
  have k: "n = int k" "0 < k" "L + k \<le> S" "length ys = k"
    using assms(3,4,5) L by (auto simp: k_def)
  define W' where "W' = (if W + k < S then W + k else W + k - S)"
  have W': "(W + k) mod S = W'" "W' < S"
    using b k L by (auto simp: W'_def mod_if)
  have md: "(int W + int k) mod int S = int W'"
    by (simp add: zmod_int flip: W'(1))
  have w': "w b' = int W'" "isFull b' = (W' = R)"
    using b k by (simp_all add: b'_def md)
  have buf': "buf b' = Some (ring_put xs W ys)"
    using b by (simp add: b'_def elems_def)
  have len': "length (ring_put xs W ys) = S"
    using b k by (simp add: length_ring_put)
  show "r b' = r b" "size_b b' = size_b b" by (simp_all add: b'_def)
  then have rs: "r b' = int R" "size_b b' = int S" using b by simp_all
  show "wf b'"
    using assms(1) b W' w' buf' len' rs by (simp add: wf_def elems_def len_def)
  have L': "Length b' = int (L + k)"
    using b k L w' rs unfolding W'_def
    by (auto simp: Length_def L_def split: if_splits)
  then show "Length b' = Length b + n"
    using k L by simp
  have "L = (if R \<le> W then W - R else length xs - R + W)"
    using b by (simp add: L_def)
  then have "take (L + length ys) (rotate R (ring_put xs W ys)) = take L (rotate R xs) @ ys"
    using b k by (intro take_rotate_put) simp_all
  moreover have "occupied b' = take (L + k) (rotate R (ring_put xs W ys))"
    unfolding occupied_def L' rs buf' by (simp add: elems_def del: of_nat_add)
  moreover have "occupied b = take L (rotate R xs)"
    unfolding occupied_def L(1) b by (simp add: elems_def)
  ultimately show "occupied b' = occupied b @ ys"
    using k by simp
qed


lemma take_rotate_split:
  assumes "R < length xs" "k \<le> length xs"
  shows "take k (rotate R xs) =
           (if R + k \<le> length xs then take k (drop R xs)
            else drop R xs @ take (k - (length xs - R)) xs)"
proof -
  have "k - (length xs - R) \<le> R" using assms by simp
  then have "take (k - (length xs - R)) (take R xs) = take (k - (length xs - R)) xs"
    by (simp add: min_def)
  then show ?thesis
    using assms by (simp add: rotate_le)
qed

lemma read_copy:
  assumes "wf b" "0 < n" "n \<le> Length b" "n \<le> len p"
  shows "(if r b + n \<le> size_b b then
            pbind (slice (elems (buf b)) (r b) (r b + n)) (\<lambda>s.
            copy_to p 0 (len p) s)
          else
            pbind (slice (elems (buf b)) (r b) (size_b b)) (\<lambda>s1.
            pbind (copy_to p 0 (len p) s1) (\<lambda>p1.
            pbind (slice (elems (buf b)) 0 (n - (size_b b - r b))) (\<lambda>s2.
            copy_to p1 (size_b b - r b) (len p) s2))))
         = Inr (take (nat n) (occupied b) @ drop (nat n) p)"
proof -
  from assms(1) obtain xs R W S where b: "buf b = Some xs" "length xs = S" "r b = int R"
    "w b = int W" "size_b b = int S" "R < S" "W < S" by (rule wf_nat)
  define L where "L = nat (Length b)"
  have L: "Length b = int L" "L \<le> S"
    using wf_Length [OF assms(1)] b by (auto simp: L_def Capacity_def)
  define k where "k = nat n"
  have k: "n = int k" "0 < k" "k \<le> L" "k \<le> length p"
    using assms(2,3,4) L by (auto simp: k_def len_def)
  have occ: "take k (occupied b) = take k (rotate R xs)"
    using b k L by (simp add: occupied_def elems_def min_def)
  show ?thesis
  proof (cases "R + k \<le> S")
    case True
    have "slice xs (int R) (int (R + k)) = Inr (take k (drop R xs))"
      using slice_nat [of R "R + k" xs] b True by simp
    moreover have "copy_to p (int 0) (int (length p)) (take k (drop R xs))
                     = Inr (take k (drop R xs) @ drop k p)"
    proof -
      have "length (take k (drop R xs)) = k" using b True by simp
      then show ?thesis
        using copy_to_fit [of 0 "take k (drop R xs)" "length p" p] k by simp
    qed
    moreover have "take k (occupied b) = take k (drop R xs)"
      using take_rotate_split [of R xs k] b k L True by (simp add: occ)
    ultimately show ?thesis
      using b k True by (simp add: elems_def len_def)
  next
    case False
    let ?c1 = "S - R"
    have s1: "slice xs (int R) (int S) = Inr (drop R xs)"
      using slice_nat [of R S xs] b by simp
    have cp1: "copy_to p (int 0) (int (length p)) (drop R xs) = Inr (drop R xs @ drop ?c1 p)"
    proof -
      have "length (drop R xs) = ?c1" using b by simp
      then show ?thesis
        using copy_to_fit [of 0 "drop R xs" "length p" p] k False by simp
    qed
    have s2: "slice xs (int 0) (int (k - ?c1)) = Inr (take (k - ?c1) xs)"
      using slice_nat [of 0 "k - ?c1" xs] b k L by simp
    have cp2: "copy_to (drop R xs @ drop ?c1 p) (int ?c1) (int (length p)) (take (k - ?c1) xs)
                 = Inr (drop R xs @ take (k - ?c1) xs @ drop k p)"
    proof -
      have "length (take (k - ?c1) xs) = k - ?c1" "length (drop R xs) = ?c1"
        using b k L by simp_all
      then show ?thesis
        using copy_to_fit [of ?c1 "take (k - ?c1) xs" "length p" "drop R xs @ drop ?c1 p"]
          b k False by simp
    qed
    have "take k (occupied b) = drop R xs @ take (k - ?c1) xs"
      using take_rotate_split [of R xs k] b k L False by (simp add: occ)
    moreover have e: "int k - (int S - int R) = int (k - ?c1)" "int S - int R = int ?c1"
      using b False by simp_all
    ultimately show ?thesis
      using b k False s1 cp1 s2 cp2 unfolding Let_def
      by (simp add: elems_def len_def e del: of_nat_diff)
  qed
qed


lemma go_rem_nonneg: "0 \<le> a \<Longrightarrow> 0 < n \<Longrightarrow> go_rem a n = Inr (a mod n)"
  by (simp add: go_rem_def sgn_if)

lemma Read_wf:
  fixes p :: "byte list"
  assumes "wf b"
  defines "n \<equiv> min (Length b) (len p)"
  shows "Read b p =
     (if n = 0 then Inr ((0, Some EOF), p, b)
      else Inr ((n, None), take (nat n) (occupied b) @ drop (nat n) p,
                b\<lparr>r := (r b + n) mod size_b b, isFull := False\<rparr>))"
proof -
  have nn: "(if Length b > len p then len p else Length b) = n"
    by (simp add: n_def min_def)
  show ?thesis
  proof (cases "n = 0")
    case True
    then show ?thesis
      unfolding Read_def ReadUntilFunc_def Let_def nn by simp
  next
    case False
    have n: "0 < n" "n \<le> Length b" "n \<le> len p"
      using False wf_Length [OF assms(1)] by (auto simp: n_def len_def)
    have "go_rem (r b + n) (size_b b) = Inr ((r b + n) mod size_b b)"
      using assms(1) n by (intro go_rem_nonneg) (simp_all add: wf_def)
    then show ?thesis
      using n unfolding Read_def ReadUntilFunc_def Let_def nn
      by (simp add: read_copy [OF assms(1) n] split del: if_split)
  qed
qed

section \<open>Round trip\<close>

text \<open>
  Claim C1. For every byte sequence \<open>S\<close> with \<open>len(S) \<le> Capacity()\<close>, writing \<open>S\<close> with
  \<open>Write\<close> into an empty buffer, whatever the common position of the two cursors, and
  then reading \<open>len(S)\<close> bytes with \<open>Read\<close> yields exactly \<open>S\<close>. (For the empty sequence
  the read of zero bytes reports \<open>io.EOF\<close>.)
\<close>

theorem roundtrip_write_read:
  assumes "wf b" "IsEmpty b" "len S \<le> Capacity b" "length d = length S"
  shows "\<exists>b1 b2. Write b S = Inr ((len S, None), b1)
           \<and> Read b1 d = Inr ((len S, if S = [] then Some EOF else None), S, b2)"
proof (cases "S = []")
  case True
  then show ?thesis
    using assms Read_wf [of b d] wf_Length [of b] by (simp add: Write_def len_def)
next
  case False
  have nf: "\<not> isFull b" and F: "Free b = Capacity b" and L: "Length b = 0"
    using assms(2) by (simp_all add: IsEmpty_def Free_def Length_def Capacity_def)
  have m: "min (Free b) (len S) = len S" "\<not> Free b < len S" "take (nat (Free b)) S = S"
    using assms(3) F by (simp_all add: len_def)
  define b1 where "b1 = (store b (ring_put (elems (buf b)) (nat (w b)) S))
            \<lparr>w := (w b + len S) mod size_b b, isFull := ((w b + len S) mod size_b b = r b)\<rparr>"
  have W: "Write b S = Inr ((len S, None), b1)"
    using Write_wf [OF assms(1) nf False] by (simp add: m b1_def)
  have p: "0 < len S" "len S \<le> Free b" "length S = nat (len S)"
    using False assms(3) F by (simp_all add: len_def)
  have b1: "wf b1" "Length b1 = len S" "occupied b1 = S"
    using put_wf [OF assms(1) nf p] L assms(2)
    by (simp_all add: b1_def occupied_def)
  have "min (Length b1) (len d) = len S"
    using b1 assms(4) by (simp add: len_def)
  then show ?thesis
    using Read_wf [OF b1(1), of d] W b1 False assms(4) by (simp add: len_def)
qed


theorem roundtrip_write_read_witness:
  "wf ex4 \<and> IsEmpty ex4 \<and>
   (\<exists>b1 b2. Write ex4 [1, 2, 3] = Inr ((3, None), b1)
       \<and> Read b1 [0, 0, 0] = Inr ((3, None), [1, 2, 3], b2))"
  using roundtrip_write_read [of ex4 "[1, 2, 3]" "[0, 0, 0]"]
  by (simp add: wf_def IsEmpty_def Capacity_def ex4_def len_def elems_def)

lemma wf_full_iff: "wf b \<Longrightarrow> isFull b \<longleftrightarrow> Length b = size_b b"
  by (auto simp: wf_def Length_def split: if_splits)

lemma wf_empty_iff: "wf b \<Longrightarrow> IsEmpty b \<longleftrightarrow> Length b = 0"
  by (auto simp: wf_def Length_def IsEmpty_def split: if_splits)

lemma wf_Free_pos: "wf b \<Longrightarrow> \<not> isFull b \<Longrightarrow> 0 < Free b"
  by (auto simp: wf_def Free_def split: if_splits)

lemma Write_effect:
  assumes "wf b" "\<not> isFull b" "p \<noteq> []"
  obtains b' where
    "Write b p = Inr ((min (Free b) (len p), if Free b < len p then Some ErrIsFull else None), b')"
    "wf b'" "Length b' = Length b + min (Free b) (len p)"
    "occupied b' = occupied b @ take (nat (Free b)) p"
    "r b' = r b" "size_b b' = size_b b"
proof -
  let ?n = "min (Free b) (len p)"
  have n: "0 < ?n" "?n \<le> Free b" "length (take (nat (Free b)) p) = nat ?n"
    using wf_Free_pos [OF assms(1,2)] assms(3) by (auto simp: len_def)
  note pw = put_wf [OF assms(1,2) n]
  show thesis
    by (rule that [OF Write_wf [OF assms] pw])
qed

lemma Read_effect:
  fixes p :: "byte list"
  assumes "wf b" "0 < Length b" "p \<noteq> []"
  defines "n \<equiv> min (Length b) (len p)"
  obtains b' where
    "Read b p = Inr ((n, None), take (nat n) (occupied b) @ drop (nat n) p, b')"
    "wf b'" "Length b' = Length b - n"
    "occupied b' = drop (nat n) (occupied b)"
proof -
  have n: "0 < n" "n \<le> Length b"
    using assms(2,3) by (auto simp: len_def n_def)
  have rd: "Read b p = Inr ((n, None), take (nat n) (occupied b) @ drop (nat n) p,
                b\<lparr>r := (r b + n) mod size_b b, isFull := False\<rparr>)"
    using Read_wf [OF assms(1), of p, folded n_def] n(1) by simp
  note aw = advance_wf [OF assms(1) n]
  show thesis
    by (rule that [OF rd aw])
qed

section \<open>Full and empty\<close>

text \<open>
  Claim C2 (as stated, for every buffer: writing exactly \<open>Capacity()\<close> bytes into an
  empty buffer makes \<open>IsFull()\<close> true) fails on the buffer of capacity 0, which both
  constructors return: writing its \<open>Capacity()\<close>, that is zero, bytes is the no-op of
  \<open>Write\<close> on an empty source and leaves \<open>IsFull()\<close> false.
\<close>

theorem zero_capacity_not_full_counterexample:
  "New [WithSize 0] = Inr ex_cap0 \<and> New_v2 0 = Inr ex_cap0
   \<and> IsEmpty ex_cap0 \<and> Capacity ex_cap0 = 0
   \<and> Write ex_cap0 [] = Inr ((0, None), ex_cap0) \<and> \<not> IsFull ex_cap0"
  by (simp add: New_def New_v2_def WithSize_def option_New_def make_bytes_def ex_cap0_def
      IsEmpty_def IsFull_def Capacity_def Write_def len_def)

text \<open>
  Claim C2, amended. For every buffer of positive capacity satisfying the invariant,
  writing exactly \<open>Capacity()\<close> bytes into the empty buffer makes \<open>IsFull()\<close> true and
  \<open>Length()\<close> equal to \<open>Capacity()\<close>; reading all of them makes \<open>IsEmpty()\<close> true and
  \<open>Length()\<close> zero. The cursors coincide in both states, and the two states are told
  apart: the full buffer is not empty, the emptied one is not full.
\<close>

theorem full_empty_disambiguation:
  assumes "wf b" "IsEmpty b" "len S = Capacity b" "length d = length S"
  shows "\<exists>b1 b2. Write b S = Inr ((Capacity b, None), b1)
           \<and> IsFull b1 \<and> \<not> IsEmpty b1 \<and> Length b1 = Capacity b1 \<and> r b1 = w b1
           \<and> Read b1 d = Inr ((Capacity b, None), S, b2)
           \<and> IsEmpty b2 \<and> \<not> IsFull b2 \<and> Length b2 = 0 \<and> r b2 = w b2"
proof -
  have nf: "\<not> isFull b" and F: "Free b = Capacity b" and L: "Length b = 0" "occupied b = []"
    using assms(2) by (simp_all add: IsEmpty_def Free_def Length_def Capacity_def occupied_def)
  have S: "S \<noteq> []" "d \<noteq> []"
    using assms by (auto simp: wf_def Capacity_def len_def)
  have mW: "min (Free b) (len S) = Capacity b" "\<not> Free b < len S" "take (nat (Free b)) S = S"
    using F assms(3) by (simp_all add: len_def)
  obtain b1 where b1:
    "Write b S = Inr ((min (Free b) (len S), if Free b < len S then Some ErrIsFull else None), b1)"
    "wf b1" "Length b1 = Length b + min (Free b) (len S)"
    "occupied b1 = occupied b @ take (nat (Free b)) S"
    "r b1 = r b" "size_b b1 = size_b b"
    by (rule Write_effect [OF assms(1) nf S(1)])
  have W: "Write b S = Inr ((Capacity b, None), b1)"
    using b1(1) by (simp add: mW)
  have L1: "Length b1 = Capacity b1" "Length b1 = Capacity b" "occupied b1 = S"
    using b1(3,4,6) L by (simp_all add: mW Capacity_def)
  have full: "isFull b1"
    using wf_full_iff [OF b1(2)] L1(1) by (simp add: Capacity_def)
  then have rw: "r b1 = w b1"
    using b1(2) by (simp add: wf_def)
  have pos: "0 < Length b1"
    using L1(1) b1(2) by (simp add: Capacity_def wf_def)
  have mR: "min (Length b1) (len d) = Capacity b" "nat (Capacity b) = length S"
    using L1(2) assms(3,4) by (simp_all add: len_def)
  obtain b2 where b2:
    "Read b1 d = Inr ((min (Length b1) (len d), None),
        take (nat (min (Length b1) (len d))) (occupied b1)
          @ drop (nat (min (Length b1) (len d))) d, b2)"
    "wf b2" "Length b2 = Length b1 - min (Length b1) (len d)"
    "occupied b2 = drop (nat (min (Length b1) (len d))) (occupied b1)"
    by (rule Read_effect [OF b1(2) pos S(2)])
  have R: "Read b1 d = Inr ((Capacity b, None), S, b2)"
    using b2(1) assms(4) unfolding mR L1(3) by simp
  have L2: "Length b2 = 0"
    using b2(3) mR(1) by (simp add: L1(2))
  then have e2: "IsEmpty b2"
    using wf_empty_iff [OF b2(2)] by simp
  have "\<not> IsEmpty b1" "IsFull b1" "\<not> IsFull b2" "r b2 = w b2"
    using full e2 by (simp_all add: IsEmpty_def IsFull_def)
  then show ?thesis
    using W R L1(1) rw e2 L2 by blast
qed

theorem full_empty_disambiguation_witness:
  "wf ex_zero4 \<and> IsEmpty ex_zero4 \<and>
   (\<exists>b1 b2. Write ex_zero4 [1, 2, 3, 4] = Inr ((4, None), b1)
       \<and> IsFull b1 \<and> \<not> IsEmpty b1 \<and> Length b1 = Capacity b1 \<and> r b1 = w b1
       \<and> Read b1 [0, 0, 0, 0] = Inr ((4, None), [1, 2, 3, 4], b2)
       \<and> IsEmpty b2 \<and> \<not> IsFull b2 \<and> Length b2 = 0 \<and> r b2 = w b2)"
  using full_empty_disambiguation [of ex_zero4 "[1, 2, 3, 4]" "[0, 0, 0, 0]"]
  by (simp add: wf_def IsEmpty_def Capacity_def ex_zero4_def len_def elems_def)

lemma Write_v2_wf:
  assumes "wf b" "\<not> isFull b" "p \<noteq> []"
  shows "Write_v2 b p =
     Inr ((min (Free b) (len p), if Free b < len p then Some ErrTooManyDataToWrite else None),
          (store b (ring_put (elems (buf b)) (nat (w b)) (take (nat (Free b)) p)))
            \<lparr>w := (w b + min (Free b) (len p)) mod size_b b,
             isFull := ((w b + min (Free b) (len p)) mod size_b b = r b)\<rparr>)"
proof -
  from assms(1) obtain xs R W S where b: "buf b = Some xs" "length xs = S" "r b = int R"
    "w b = int W" "size_b b = int S" "R < S" "W < S" by (rule wf_nat)
  define F where "F = (if R \<le> W then S - W + R else R - W)"
  have F: "Free b = int F" "0 < F" "F \<le> S"
    using b assms(2) by (auto simp: Free_def F_def)
  define n where "n = min F (length p)"
  have n: "min (Free b) (len p) = int n" "0 < n" "n \<le> F" "n \<le> length p"
    using F assms(3) by (auto simp: n_def len_def)
  define ys where "ys = take F p"
  have ys: "length ys = n" "len ys = int n" by (auto simp: ys_def n_def len_def)
  have lp: "len p = int (length p)" by (simp add: len_def)
  have avail: "(if w b \<ge> r b then size_b b - w b + r b else r b - w b) = int F"
    using b by (auto simp: F_def)
  have trunc: "(if len p > int F
              then pbind (slice p 0 (int F)) (\<lambda>q. Inr (Some ErrTooManyDataToWrite, q))
              else Inr (None, p))
           = Inr (if Free b < len p then Some ErrTooManyDataToWrite else None, ys)"
    using slice_nat [of 0 F p] F by (auto simp: lp ys_def)
  let ?copy = "(if w b \<ge> r b then
                 (if size_b b - w b \<ge> int n then
                    pbind (copy_to (elems (buf b)) (w b) (len (elems (buf b))) ys) (\<lambda>buf'.
                    Inr (buf', w b + int n))
                  else
                    pbind (slice ys 0 (size_b b - w b)) (\<lambda>s1.
                    pbind (copy_to (elems (buf b)) (w b) (len (elems (buf b))) s1) (\<lambda>buf1.
                    pbind (slice ys (size_b b - w b) (len ys)) (\<lambda>s2.
                    pbind (copy_to buf1 0 (len buf1) s2) (\<lambda>buf'.
                    Inr (buf', int n - (size_b b - w b)))))))
               else
                 pbind (copy_to (elems (buf b)) (w b) (len (elems (buf b))) ys) (\<lambda>buf'.
                 Inr (buf', w b + int n)))"
  define W' where "W' = (if W + n < S then W + n else W + n - S)"
  have W': "(W + n) mod S = W'" "W' < S"
    using b n F by (auto simp: W'_def mod_if)
  have copy: "?copy = Inr (ring_put xs W ys, if W + n = S then int S else int W')"
  proof (cases "R \<le> W")
    case True
    have d: "(int n \<le> int S - int W) = (n \<le> S - W)" using b by auto
    show ?thesis
    proof (cases "n \<le> S - W")
      case le: True
      have "copy_to xs (int W) (int S) ys = Inr (ring_put xs W ys)"
      proof -
        have m: "W + length ys \<le> S" "W + length ys \<le> length xs"
          using le ys b by simp_all
        show ?thesis
          using copy_to_fit [OF m(1), of xs] put_nowrap [OF m(2)] b by simp
      qed
      then show ?thesis
        using b True le by (auto simp: elems_def len_def d W'_def)
    next
      case gt: False
      let ?c1 = "S - W"
      have s1: "slice ys 0 (int ?c1) = Inr (take ?c1 ys)"
        using slice_nat [of 0 ?c1 ys] ys gt by simp
      have cp1: "copy_to xs (int W) (int S) (take ?c1 ys) = Inr (take W xs @ take ?c1 ys)"
      proof -
        have "W + length (take ?c1 ys) \<le> S" "W + length (take ?c1 ys) = S"
          using b ys gt by simp_all
        then show ?thesis
          using copy_to_fit [of W "take ?c1 ys" S xs] b by simp
      qed
      have s2: "slice ys (int ?c1) (int n) = Inr (drop ?c1 ys)"
        using slice_nat [of ?c1 n ys] ys gt by simp
      have S: "n \<le> S" using n F by simp
      have cp2: "copy_to (take W xs @ take ?c1 ys) (int 0) (int S) (drop ?c1 ys)
                   = Inr (ring_put xs W ys)"
      proof -
        have l: "length (take W xs @ take ?c1 ys) = S" "length (drop ?c1 ys) = n - ?c1"
          using b ys gt by simp_all
        have "copy_to (take W xs @ take ?c1 ys) (int 0) (int S) (drop ?c1 ys)
              = Inr (drop ?c1 ys @ drop (n - ?c1) (take W xs @ take ?c1 ys))"
          using copy_to_fit [of 0 "drop ?c1 ys" S "take W xs @ take ?c1 ys"] l S
          by (simp del: length_append length_take length_drop)
        moreover have "take (length ys - (length xs - W)) (drop (length xs - W) ys) = drop ?c1 ys"
          using ys b by simp
        ultimately show ?thesis
          using put_wrap [of W xs ys] b ys gt S by simp
      qed
      have e: "int n - (int S - int W) = int W'" "W + n \<noteq> S"
        using gt b by (auto simp: W'_def)
      have l1: "len (take W xs @ take ?c1 ys) = int S"
        using b ys gt by (simp add: len_def)
      have lx: "len xs = int S" using b by (simp add: len_def)
      show ?thesis
        using b(1,3,4,5,7) True gt s1 cp1 s2 cp2
        by (simp add: elems_def d e ys l1 lx)
    qed
  next
    case False
    then have le: "W + n \<le> S" "W + n \<noteq> S" using n b by (simp_all add: F_def)
    have "copy_to xs (int W) (int S) ys = Inr (ring_put xs W ys)"
    proof -
      have m: "W + length ys \<le> S" "W + length ys \<le> length xs"
        using le ys b by simp_all
      show ?thesis
        using copy_to_fit [OF m(1), of xs] put_nowrap [OF m(2)] b by simp
    qed
    then show ?thesis
      using b False le by (auto simp: elems_def len_def W'_def)
  qed
  have md: "(w b + int n) mod size_b b = int W'"
    using b by (simp add: zmod_int flip: W'(1))
  have fin: "(if (if W + n = S then int S else int W') = size_b b then 0
              else (if W + n = S then int S else int W')) = int W'"
    using b W' by (auto simp: W'_def)
  have "Write_v2 b p = pbind ?copy (\<lambda>(buf', w1).
          let w2 = (if w1 = size_b b then 0 else w1)
          in Inr ((int n, if Free b < len p then Some ErrTooManyDataToWrite else None),
                  (store b buf')\<lparr>w := w2, isFull := (if w2 = r b then True else isFull b)\<rparr>))"
    unfolding Write_v2_def avail Let_def trunc using assms by (simp add: lp ys)
  then show ?thesis
    unfolding copy n(1) md using assms(2) b(1,3,4) F(1)
    by (simp add: ys_def elems_def fin Let_def)
qed


section \<open>The two variants of Write\<close>

text \<open>
  Claim C10 (as stated, for every starting buffer state: the \<open>Write\<close> functions of the two
  variants produce the same final state and count) fails on the buffer of capacity 0,
  which both constructors return: given one byte, the current \<open>Write\<close> panics with a
  division by zero at \<open>(b.w + n) % b.size\<close>, while the older one returns
  \<open>(0, ErrTooManyDataToWrite)\<close> and sets the full flag.
\<close>

theorem write_variants_zero_capacity_counterexample:
  "New_v2 0 = Inr ex_cap0 \<and> New [WithSize 0] = Inr ex_cap0
   \<and> Write ex_cap0 [1] = Inl DivideByZero
   \<and> Write_v2 ex_cap0 [1] = Inr ((0, Some ErrTooManyDataToWrite), ex_cap0\<lparr>isFull := True\<rparr>)"
  by (simp add: New_def New_v2_def WithSize_def option_New_def make_bytes_def ex_cap0_def
      Write_def Write_v2_def len_def elems_def slice_def copy_to_def store_def go_rem_def)

text \<open>
  Claim C10, amended. From every buffer state of positive capacity satisfying the
  invariant and for every input \<open>p\<close>, the \<open>Write\<close> functions of the two variants return
  the same count and leave the same buffer (stored bytes, cursors, full flag). Their
  error values differ in one situation only: when the buffer is not full and \<open>len(p)\<close>
  exceeds the free space, the current variant returns \<open>ErrIsFull\<close> and the older one
  \<open>ErrTooManyDataToWrite\<close>.
\<close>

theorem write_variants_agree:
  assumes "wf b"
  shows "\<exists>n e1 e2 b'. Write b p = Inr ((n, e1), b') \<and> Write_v2 b p = Inr ((n, e2), b')
           \<and> (if \<not> isFull b \<and> Free b < len p
                then e1 = Some ErrIsFull \<and> e2 = Some ErrTooManyDataToWrite
                else e1 = e2)"
proof (cases "p = [] \<or> isFull b")
  case True
  then show ?thesis
    using wf_Length [OF assms] Length_Free [of b]
    by (auto simp: Write_def Write_v2_def len_def)
next
  case False
  then have nf: "\<not> isFull b" "p \<noteq> []" by simp_all
  show ?thesis
    unfolding Write_wf [OF assms nf] Write_v2_wf [OF assms nf] using nf by simp
qed

theorem write_variants_agree_witness:
  "wf ex4 \<and>
   (\<exists>n b'. Write ex4 [1, 2, 3, 4, 5] = Inr ((n, Some ErrIsFull), b')
      \<and> Write_v2 ex4 [1, 2, 3, 4, 5] = Inr ((n, Some ErrTooManyDataToWrite), b'))"
  using write_variants_agree [of ex4 "[1, 2, 3, 4, 5]"]
  by (simp add: wf_def ex4_def len_def elems_def Free_def)

section \<open>Overflowing writes in the older variant\<close>

lemma Write_v2_ex_zero4:
  "Write_v2 ex_zero4 [1, 2, 3, 4, 5] =
     Inr ((4, Some ErrTooManyDataToWrite),
          \<lparr>buf = Some [4, 1, 2, 3], size_b = 4, r = 1, w = 1, isFull = True\<rparr>)"
  by (simp add: Write_v2_def ex_zero4_def len_def elems_def slice_def copy_to_def store_def)


lemma Write_v2_effect:
  assumes "wf b" "\<not> isFull b" "p \<noteq> []"
  obtains b' where
    "Write_v2 b p
       = Inr ((min (Free b) (len p), if Free b < len p then Some ErrTooManyDataToWrite else None), b')"
    "wf b'" "Length b' = Length b + min (Free b) (len p)"
    "occupied b' = occupied b @ take (nat (Free b)) p"
    "r b' = r b" "size_b b' = size_b b"
proof -
  let ?n = "min (Free b) (len p)"
  have n: "0 < ?n" "?n \<le> Free b" "length (take (nat (Free b)) p) = nat ?n"
    using wf_Free_pos [OF assms(1,2)] assms(3) by (auto simp: len_def)
  note pw = put_wf [OF assms(1,2) n]
  show thesis
    by (rule that [OF Write_v2_wf [OF assms] pw])
qed

text \<open>
  Claim C6 (as stated in the spec: an overflowing write under the too-much-data policy
  leaves the buffer unmodified) fails on the code: the older variant's \<open>Write\<close> signals
  \<open>ErrTooManyDataToWrite\<close> and still stores the prefix of the source that fits.
\<close>

theorem too_much_data_unmodified_counterexample:
  "Write_v2 ex_zero4 [1, 2, 3, 4, 5] =
     Inr ((4, Some ErrTooManyDataToWrite), ex_zero4\<lparr>buf := Some [4, 1, 2, 3], isFull := True\<rparr>)
   \<and> ex_zero4\<lparr>buf := Some [4, 1, 2, 3], isFull := True\<rparr> \<noteq> ex_zero4"
  by (simp add: Write_v2_ex_zero4) (simp add: ex_zero4_def)

text \<open>
  Claim C6, amended. The older \<open>Write\<close> signals too-much-data exactly when the buffer is
  not full and the source is longer than the free space; it then writes the first
  \<open>Free()\<close> bytes of the source after the occupied bytes, returns \<open>Free()\<close> as the count,
  leaves the read cursor where it was, and the buffer ends up full.
\<close>

theorem too_much_data_writes_prefix:
  assumes "wf b"
  shows "((\<exists>n b'. Write_v2 b p = Inr ((n, Some ErrTooManyDataToWrite), b'))
            \<longleftrightarrow> \<not> isFull b \<and> Free b < len p)
       \<and> (\<not> isFull b \<and> Free b < len p \<longrightarrow>
            (\<exists>b'. Write_v2 b p = Inr ((Free b, Some ErrTooManyDataToWrite), b')
                \<and> wf b' \<and> occupied b' = occupied b @ take (nat (Free b)) p
                \<and> IsFull b' \<and> r b' = r b))"
proof (cases "p = [] \<or> isFull b")
  case True
  then show ?thesis
    using wf_Length [OF assms] Length_Free [of b]
    by (auto simp: Write_v2_def len_def)
next
  case False
  then have nf: "\<not> isFull b" "p \<noteq> []" by simp_all
  obtain b' where b':
    "Write_v2 b p
       = Inr ((min (Free b) (len p), if Free b < len p then Some ErrTooManyDataToWrite else None), b')"
    "wf b'" "Length b' = Length b + min (Free b) (len p)"
    "occupied b' = occupied b @ take (nat (Free b)) p"
    "r b' = r b" "size_b b' = size_b b"
    by (rule Write_v2_effect [OF assms nf])
  have "IsFull b'" if "Free b < len p"
  proof -
    have "Length b' = size_b b'"
      using that b'(3,6) Length_Free [of b] by (simp add: Capacity_def)
    then show ?thesis
      using wf_full_iff [OF b'(2)] by (simp add: IsFull_def)
  qed
  then show ?thesis
    using b' nf by auto
qed

theorem too_much_data_writes_prefix_witness:
  "wf ex_zero4 \<and>
   (\<exists>b'. Write_v2 ex_zero4 [1, 2, 3, 4, 5] = Inr ((4, Some ErrTooManyDataToWrite), b')
       \<and> wf b' \<and> occupied b' = occupied ex_zero4 @ [1, 2, 3, 4] \<and> IsFull b' \<and> r b' = 1)"
  using too_much_data_writes_prefix [of ex_zero4 "[1, 2, 3, 4, 5]"]
  by (simp add: wf_def ex_zero4_def len_def elems_def Free_def)

section \<open>Construction\<close>

lemma option_New_single [simp]: "option_New z [f] [] = f z"
  by (simp add: option_New_def)

text \<open>
  Claim C4 (as stated in the spec: a capacity less than or equal to 0 is rejected with
  an InvalidCapacity error) fails on the code: capacity 0 is accepted by both
  constructors and gives a buffer over an empty array.
\<close>

theorem zero_capacity_counterexample:
  "New_v2 0 = Inr \<lparr>buf = Some [], size_b = 0, r = 0, w = 0, isFull = False\<rparr>
   \<and> New [WithSize 0] = Inr \<lparr>buf = Some [], size_b = 0, r = 0, w = 0, isFull = False\<rparr>"
  by (simp add: New_v2_def New_def WithSize_def make_bytes_def)

text \<open>
  Claim C4, amended. For every capacity \<open>n\<close> from 0, zero included, up to the allocation
  limit of the runtime, both constructors yield a buffer with a zeroed backing array of
  length \<open>n\<close>, both cursors at 0 and the full flag cleared. A negative capacity, or one
  above the allocation limit, makes the allocation panic at run time ("makeslice: len
  out of range"); the code has no InvalidCapacity error.
\<close>

theorem construction:
  "(0 \<le> n \<and> n \<le> maxAlloc \<longrightarrow>
      New_v2 n = Inr \<lparr>buf = Some (replicate (nat n) 0), size_b = n, r = 0, w = 0, isFull = False\<rparr>
    \<and> New [WithSize n]
        = Inr \<lparr>buf = Some (replicate (nat n) 0), size_b = n, r = 0, w = 0, isFull = False\<rparr>)
   \<and> (n < 0 \<or> maxAlloc < n \<longrightarrow>
      New_v2 n = Inl MakesliceLenOutOfRange \<and> New [WithSize n] = Inl MakesliceLenOutOfRange)"
  by (auto simp: New_v2_def New_def WithSize_def make_bytes_def)

theorem construction_witness:
  "New_v2 4 = Inr ex_new4 \<and> New [WithSize 4] = Inr ex_new4
   \<and> New_v2 (- 1) = Inl MakesliceLenOutOfRange \<and> New [WithSize (- 1)] = Inl MakesliceLenOutOfRange
   \<and> New_v2 (2 ^ 62) = Inl MakesliceLenOutOfRange
   \<and> New [WithSize (2 ^ 62)] = Inl MakesliceLenOutOfRange"
proof -
  have small: "New_v2 4 = Inr ex_new4 \<and> New [WithSize 4] = Inr ex_new4"
    using construction [of 4] by (simp add: ex_new4_def numeral_eq_Suc)
  have negative:
    "New_v2 (- 1) = Inl MakesliceLenOutOfRange \<and> New [WithSize (- 1)] = Inl MakesliceLenOutOfRange"
    using construction [of "- 1"] by simp
  have huge:
    "New_v2 (2 ^ 62) = Inl MakesliceLenOutOfRange
     \<and> New [WithSize (2 ^ 62)] = Inl MakesliceLenOutOfRange"
    using construction [of "2 ^ 62"] by simp
  from small negative huge show ?thesis by blast
qed

section \<open>Reading into a zero-length destination\<close>

text \<open>
  Claim C9 (\<open>Read\<close> with a zero-length destination returns zero bytes copied and no error
  signal, and leaves the buffer unchanged), evaluated on the full buffer obtained by
  writing 1, 2, 3, 4 into a fresh buffer of capacity 4: the current \<open>Read\<close> goes through
  \<open>ReadUntilFunc\<close>, whose test \<open>n == 0\<close> does not tell an empty destination from an empty
  buffer, and reports \<open>io.EOF\<close> while four bytes are available. The older \<open>Read\<close> returns
  no error there, as the claim says.
\<close>

theorem read_zero_length_signals_eof:
  "Write ex_new4 [1, 2, 3, 4] = Inr ((4, None), ex_1234)
   \<and> Length ex_1234 = 4
   \<and> Read ex_1234 [] = Inr ((0, Some EOF), [], ex_1234)
   \<and> Read_v2 ex_1234 [] = Inr ((0, None), [], ex_1234)"
  by (simp add: ex_new4_def ex_1234_def Write_def Read_def Read_v2_def ReadUntilFunc_def
      Length_def len_def elems_def slice_def copy_to_def store_def go_rem_def)

text \<open>In every state the zero-length read copies nothing and changes nothing; only the
  error value of the current variant departs from the claim.\<close>

lemma read_zero_length:
  "Read_v2 b [] = Inr ((0, None), [], b)
   \<and> (0 \<le> Length b \<longrightarrow> Read b [] = Inr ((0, Some EOF), [], b))"
  by (simp add: Read_v2_def Read_def ReadUntilFunc_def len_def Let_def)

section \<open>Consume with a negative count\<close>

text \<open>
  Claim C3 (in every state reached from a fresh buffer by \<open>Write\<close>, \<open>Read\<close>, \<open>WriteByte\<close>,
  \<open>ReadByte\<close>, \<open>Consume\<close> and \<open>Reset\<close>, \<open>Length() + Free() = Capacity()\<close> and \<open>Length()\<close> lies
  in \<open>[0, Capacity()]\<close>), evaluated at the sequence \<open>New(WithSize(4))\<close>, \<open>Write([1,2,3])\<close>,
  \<open>Consume(-3)\<close>: \<open>Consume\<close> rejects counts above \<open>Length()\<close> but not negative ones, the
  read cursor becomes \<open>-3\<close>, and \<open>Length()\<close> is 6 in a buffer of capacity 4.
\<close>

theorem consume_negative_breaks_length:
  "New [WithSize 4] = Inr ex_new4
   \<and> Write ex_new4 [1, 2, 3] = Inr ((3, None), ex_abc4)
   \<and> Consume ex_abc4 (- 3) = Inr ex_neg4
   \<and> Length ex_neg4 = 6 \<and> Capacity ex_neg4 = 4 \<and> Free ex_neg4 = - 2"
  by (simp add: New_def WithSize_def make_bytes_def ex_new4_def ex_abc4_def ex_neg4_def
      Write_def Consume_def Length_def Capacity_def Free_def len_def elems_def slice_def
      copy_to_def store_def go_rem_def int64_def numeral_eq_Suc)

section \<open>Negative indices of ByteRange\<close>

text \<open>
  Claim C7 (\<open>ByteRange\<close> treats a negative index \<open>-k\<close> as \<open>Length() - k\<close>), evaluated on a
  buffer holding the three bytes 1, 2, 3: the code computes \<open>bLen - opts.start\<close>, that is
  \<open>Length() + k\<close>, so \<open>Start(-1)\<close> panics with \<open>ErrOutOfRange\<close> where the claim promises
  the last byte; the same range given with the non-negative index 2 is returned.
\<close>

theorem byte_range_negative_start:
  "Write ex_new4 [1, 2, 3] = Inr ((3, None), ex_abc4)
   \<and> Length ex_abc4 = 3
   \<and> ByteRange ex_abc4 [Start (- 1)] = Inl (Panic ErrOutOfRange)
   \<and> ByteRange ex_abc4 [Start (- 1), End 3] = Inl (Panic ErrOutOfRange)
   \<and> ByteRange ex_abc4 [Start 2, End 3] = Inr (Some [3])"
  by (simp add: ex_new4_def ex_abc4_def
      Write_def ByteRange_def byteRange_def option_New_def Start_def End_def
      Length_def len_def elems_def slice_def
      copy_to_def store_def go_rem_def int64_def make_bytes_def)

lemma make_bytes_nat: "int n \<le> 2 ^ 48 \<Longrightarrow> make_bytes (int n) = Inr (replicate n 0)"
  by (simp add: make_bytes_def)

lemma byteRange_nat:
  assumes b: "buf b = Some xs" "length xs = S" "size_b b = int S" and ij: "i < S" "j < S"
    and al: "int S \<le> 2 ^ 48"
  shows "byteRange b (int i) (int j) =
           Inr (if i = j then (if isFull b then Some (rotate i xs) else None)
                else Some (take (if i < j then j - i else S - i + j) (rotate i xs)))"
proof -
  have wrap: "pbind (make_bytes (int n)) (\<lambda>buf0.
        pbind (slice xs (int i) (int S)) (\<lambda>s1.
        pbind (copy_to buf0 0 (len buf0) s1) (\<lambda>buf1.
        pbind (slice xs 0 (int j)) (\<lambda>s2.
        pbind (copy_to buf1 (int (S - i)) (len buf1) s2) (\<lambda>buf2.
        Inr (Some buf2))))))
      = Inr (Some (drop i xs @ take j xs))" if n: "n = S - i + j" and ji: "j \<le> i" for n
  proof -
    let ?n = "S - i + j"
    have "int ?n \<le> 2 ^ 48" using al ji ij by linarith
    note mk = make_bytes_nat [OF this]
    have s1: "slice xs (int i) (int S) = Inr (drop i xs)"
      using slice_nat [of i S xs] b ij by simp
    have c1: "copy_to (replicate ?n 0) (int 0) (int ?n) (drop i xs)
                = Inr (drop i xs @ replicate j 0)"
      using copy_to_fit [of 0 "drop i xs" ?n "replicate ?n 0"] b ij by simp
    have s2: "slice xs (int 0) (int j) = Inr (take j xs)"
      using slice_nat [of 0 j xs] b ij by simp
    have c2: "copy_to (drop i xs @ replicate j 0) (int (S - i)) (int ?n) (take j xs)
                = Inr (drop i xs @ take j xs)"
      using copy_to_fit [of "S - i" "take j xs" ?n "drop i xs @ replicate j 0"] b ij by simp
    have l: "len (replicate ?n (0::byte)) = int ?n" "len (drop i xs @ replicate j (0::byte)) = int ?n"
      using b ij by (simp_all add: len_def)
    show ?thesis
      unfolding n using s1 c1 s2 c2 by (simp add: mk l del: of_nat_add of_nat_diff)
  qed
  show ?thesis
  proof (cases "i = j")
    case True
    have t: "rotate j xs = drop j xs @ take j xs"
      using ij b by (simp add: rotate_le)
    have e: "int S - int j = int (S - j)"
      using ij by simp
    have "S = S - i + j" "j \<le> i" using True ij by simp_all
    note w = wrap [OF this]
    show ?thesis
      using True b w unfolding byteRange_def
      by (simp add: elems_def len_def e t del: of_nat_add of_nat_diff)
  next
    case ne: False
    show ?thesis
    proof (cases "i < j")
      case True
      have s: "slice xs (int i) (int j) = Inr (take (j - i) (drop i xs))"
        using slice_nat [of i j xs] b ij True by simp
      have c: "copy_to (replicate (j - i) 0) (int 0) (int (j - i)) (take (j - i) (drop i xs))
                = Inr (take (j - i) (drop i xs))"
        using copy_to_fit [of 0 "take (j - i) (drop i xs)" "j - i" "replicate (j - i) 0"]
          b ij True by simp
      have t: "take (j - i) (rotate i xs) = take (j - i) (drop i xs)"
        using b ij True by (simp add: rotate_le)
      have e: "int j - int i = int (j - i)" using True by simp
      have "int (j - i) \<le> 2 ^ 48" using al ij by linarith
      note mk = make_bytes_nat [OF this]
      show ?thesis
        using True s c b unfolding byteRange_def e
        by (simp add: elems_def len_def mk t del: of_nat_diff)
    next
      case False
      have t: "take (S - i + j) (rotate i xs) = drop i xs @ take j xs"
        using b ij False ne by (simp add: rotate_le min_def)
      have e: "int (S - i) + int j = int (S - i + j)" "int S - int i = int (S - i)"
        using ij by simp_all
      have "j \<le> i" using False by simp
      note w = wrap [OF refl this]
      show ?thesis
        using False ne w b unfolding byteRange_def
        by (simp add: elems_def len_def t e del: of_nat_add of_nat_diff)
    qed
  qed
qed


lemma int64_id: "- (2 ^ 63) \<le> x \<Longrightarrow> x < 2 ^ 63 \<Longrightarrow> int64 x = x"
  by (simp add: int64_def)

lemma Bytes_occupied:
  assumes "wf b"
  shows "Bytes b = Inr (if IsEmpty b then None else Some (occupied b))"
proof -
  from assms obtain xs R W S where b: "buf b = Some xs" "length xs = S" "r b = int R"
    "w b = int W" "size_b b = int S" "R < S" "W < S" and full: "isFull b \<longrightarrow> W = R"
    and al: "int S \<le> 2 ^ 48"
    by (rule wf_nat)
  have "Length b = int (if R = W then (if isFull b then S else 0)
                        else if R < W then W - R else S - R + W)"
    using b by (auto simp: Length_def)
  then show ?thesis
    using byteRange_nat [OF b(1,2,5,6,7) al] b full
    by (auto simp: Bytes_def IsEmpty_def occupied_def elems_def)
qed

lemma CharAt_occupied:
  assumes "wf b" "0 \<le> n" "n < Length b"
  shows "CharAt b n = Inr (occupied b ! nat n)"
proof -
  from assms(1) obtain xs R W S where b: "buf b = Some xs" "length xs = S" "r b = int R"
    "w b = int W" "size_b b = int S" "R < S" "W < S" and big: "int S < 2 ^ 62"
    by (rule wf_nat)
  define k where "k = nat n"
  have k: "n = int k" "k < nat (Length b)" "k < S"
    using assms(2,3) wf_Length [OF assms(1)] b by (auto simp: k_def Capacity_def)
  have ne: "\<not> IsEmpty b"
    using wf_empty_iff [OF assms(1)] assms(2,3) by simp
  have "int64 (int R + int k) = int (R + k)"
    using b k big by (simp add: int64_id)
  moreover have "go_rem (int (R + k)) (int S) = Inr (int ((R + k) mod S))"
    using b by (intro go_rem_nat) simp
  moreover have "index xs (int ((R + k) mod S)) = Inr (xs ! ((R + k) mod S))"
    using b by (simp add: index_def len_def)
  moreover have "occupied b ! k = xs ! ((R + k) mod S)"
    using b k by (simp add: occupied_def elems_def nth_rotate)
  ultimately show ?thesis
    using ne b k(1) by (simp add: CharAt_def elems_def)
qed


section \<open>Peeking at a byte\<close>

text \<open>
  Claim C8 (no read operation exposes a stale byte outside the occupied region;
  \<open>CharAt(n)\<close> on a non-empty buffer returns an occupied byte or fails, and fails fatally
  only when the buffer is empty), evaluated after writing 1, 2, 3, 4 into a fresh buffer
  of capacity 4, consuming them and writing 5, 6: the occupied bytes are 5, 6, yet
  \<open>CharAt(2)\<close> returns the stale byte 3, and \<open>CharAt(-1)\<close> panics with an index out of
  range although the buffer is not empty. \<open>CharAt\<close> tests emptiness only and never
  compares \<open>n\<close> with \<open>Length()\<close>.
\<close>

theorem char_at_exposes_stale_byte:
  "Write ex_new4 [1, 2, 3, 4] = Inr ((4, None), ex_1234)
   \<and> Consume ex_1234 4 = Inr ex_drained
   \<and> Write ex_drained [5, 6] = Inr ((2, None), ex_stale)
   \<and> \<not> IsEmpty ex_stale \<and> Length ex_stale = 2 \<and> Bytes ex_stale = Inr (Some [5, 6])
   \<and> CharAt ex_stale 2 = Inr 3
   \<and> CharAt ex_stale (- 1) = Inl IndexOutOfRange"
  by (simp add: ex_new4_def ex_1234_def ex_drained_def ex_stale_def
      Write_def Consume_def Length_def IsEmpty_def Bytes_def byteRange_def CharAt_def
      len_def elems_def slice_def copy_to_def store_def go_rem_def int64_def make_bytes_def
      index_def)

text \<open>Within the occupied region \<open>CharAt\<close> does what the claim says: with
  \<open>0 \<le> n < Length()\<close> it returns the \<open>n\<close>-th byte of what \<open>Bytes()\<close> returns, and on an
  empty buffer it panics with \<open>ErrOutOfRange\<close>.\<close>

lemma char_at_in_range:
  assumes "wf b"
  shows "(IsEmpty b \<longrightarrow> CharAt b n = Inl (Panic ErrOutOfRange))
       \<and> (0 \<le> n \<and> n < Length b \<longrightarrow>
            CharAt b n = Inr (occupied b ! nat n) \<and> Bytes b = Inr (Some (occupied b)))"
proof (intro conjI impI)
  assume "IsEmpty b"
  then show "CharAt b n = Inl (Panic ErrOutOfRange)"
    by (simp add: CharAt_def)
next
  assume n: "0 \<le> n \<and> n < Length b"
  then show "CharAt b n = Inr (occupied b ! nat n)"
    using CharAt_occupied [OF assms] by simp
  have "\<not> IsEmpty b"
    using wf_empty_iff [OF assms] n by simp
  then show "Bytes b = Inr (Some (occupied b))"
    using Bytes_occupied [OF assms] by simp
qed

lemma length_occupied:
  assumes "wf b"
  shows "length (occupied b) = nat (Length b)"
proof -
  have "Length b \<le> size_b b" "int (length (elems (buf b))) = size_b b"
    using wf_Length [OF assms] assms by (simp_all add: Capacity_def wf_def len_def)
  then have "nat (Length b) \<le> length (elems (buf b))" by linarith
  then show ?thesis by (simp add: occupied_def)
qed

lemma ring_index:
  assumes "wf b" "i < nat (Length b)"
  shows "go_rem (r b + int i) (size_b b) = Inr ((r b + int i) mod size_b b)"
    and "index (elems (buf b)) ((r b + int i) mod size_b b) = Inr (occupied b ! i)"
    and "0 < i \<longrightarrow> (r b + int i) mod size_b b \<noteq> w b"
proof -
  from assms(1) obtain xs R W S where b: "buf b = Some xs" "length xs = S" "r b = int R"
    "w b = int W" "size_b b = int S" "R < S" "W < S" and full: "isFull b \<longrightarrow> W = R"
    by (rule wf_nat)
  define L where "L = (if isFull b then S else if R \<le> W then W - R else S - R + W)"
  have L: "Length b = int L" "L \<le> S"
    using b full by (auto simp: Length_def L_def)
  have i: "i < L" using assms(2) L by simp
  define R' where "R' = (if R + i < S then R + i else R + i - S)"
  have R': "(R + i) mod S = R'" "R' < S"
    using b i L by (auto simp: R'_def mod_if)
  have md: "(r b + int i) mod size_b b = int R'"
    using b by (simp add: zmod_int flip: R'(1))
  show "go_rem (r b + int i) (size_b b) = Inr ((r b + int i) mod size_b b)"
    using b by (intro go_rem_nonneg) simp_all
  have "occupied b ! i = xs ! R'"
    using b i L by (simp add: occupied_def elems_def nth_rotate R'(1))
  then show "index (elems (buf b)) ((r b + int i) mod size_b b) = Inr (occupied b ! i)"
    unfolding md using b R' by (simp add: index_def len_def elems_def)
  show "0 < i \<longrightarrow> (r b + int i) mod size_b b \<noteq> w b"
    unfolding md using b i full
    by (auto simp: R'_def L_def split: if_splits)
qed

lemma ReadBytes_loop_step:
  assumes "wf b" "i < nat (Length b)"
  shows "ReadBytes_loop b delim (int i) =
           (if occupied b ! i = delim
            then Some (Inr (int i + 1, (r b + int i) mod size_b b + 1, None))
            else ReadBytes_loop b delim (int i + 1))"
  using ring_index [OF assms]
  by (subst ReadBytes_loop.simps) auto

lemma ReadBytes_loop_end:
  assumes "wf b" "0 < Length b"
  shows "ReadBytes_loop b delim (Length b) = Some (Inr (Length b, w b, Some EOF))"
proof -
  have "(r b + Length b) mod size_b b = w b"
    using assms by (auto simp: wf_def Length_def split: if_splits)
  moreover have "go_rem (r b + Length b) (size_b b) = Inr ((r b + Length b) mod size_b b)"
    using assms by (intro go_rem_nonneg) (simp_all add: wf_def)
  ultimately show ?thesis
    using assms(2) by (subst ReadBytes_loop.simps) simp
qed

lemma ReadBytes_loop_scan:
  assumes "wf b" "0 < Length b" "i \<le> nat (Length b)"
  shows "ReadBytes_loop b delim (int i) =
           Some (Inr (let k = i + length (takeWhile (\<lambda>c. c \<noteq> delim) (drop i (occupied b)))
                      in if k < nat (Length b)
                         then (int k + 1, (r b + int k) mod size_b b + 1, None)
                         else (Length b, w b, Some EOF)))"
  using assms(3)
proof (induction "nat (Length b) - i" arbitrary: i)
  case 0
  then have "int i = Length b" "drop i (occupied b) = []"
    using assms(2) by (simp_all add: length_occupied [OF assms(1)])
  then show ?case
    using ReadBytes_loop_end [OF assms(1,2)] by simp
next
  case (Suc n)
  then have i: "i < nat (Length b)" by simp
  then have d: "drop i (occupied b) = occupied b ! i # drop (Suc i) (occupied b)"
    by (intro Cons_nth_drop_Suc [symmetric]) (simp add: length_occupied [OF assms(1)])
  show ?case
  proof (cases "occupied b ! i = delim")
    case True
    then show ?thesis
      using ReadBytes_loop_step [OF assms(1) i] i by (simp add: d)
  next
    case False
    have "n = nat (Length b) - Suc i" "Suc i \<le> nat (Length b)"
      using Suc(2) i by simp_all
    from Suc(1) [OF this] False show ?thesis
      using ReadBytes_loop_step [OF assms(1) i, of delim]
      by (simp add: d add.commute)
  qed
qed


lemma ReadBytes_copy:
  assumes "wf b" "0 < m" "m \<le> Length b"
    and j: "(j = r b + m \<and> r b + m \<le> size_b b) \<or> (j = r b + m - size_b b \<and> size_b b \<le> r b + m)"
  shows "pbind (make_bytes m) (\<lambda>p0.
           pbind
             (if j > r b then
                pbind (slice (elems (buf b)) (r b) j) (\<lambda>s.
                copy_to p0 0 (len p0) s)
              else
                pbind (slice (elems (buf b)) (r b) (len (elems (buf b)))) (\<lambda>s1.
                pbind (copy_to p0 0 (size_b b - r b) s1) (\<lambda>p1.
                pbind (slice (elems (buf b)) 0 j) (\<lambda>s2.
                copy_to p1 (size_b b - r b) (len p1) s2))))
             (\<lambda>p. Inr ((Some p, err), b)))
         = Inr ((Some (take (nat m) (occupied b)), err), b)"
proof -
  from assms(1) obtain xs R W S where b: "buf b = Some xs" "length xs = S" "r b = int R"
    "w b = int W" "size_b b = int S" "R < S" "W < S"
    and al: "int S \<le> 2 ^ 48" by (rule wf_nat)
  define k where "k = nat m"
  have k: "m = int k" "0 < k" "k \<le> nat (Length b)" "k \<le> S"
    using assms(2,3) wf_Length [OF assms(1)] b by (auto simp: k_def Capacity_def)
  have occ: "take k (occupied b) = take k (rotate R xs)"
    using b k by (simp add: occupied_def elems_def min_def)
  have lx: "len xs = int S" using b by (simp add: len_def)
  have "int k \<le> 2 ^ 48" using al k(4) by linarith
  then have mk: "make_bytes (int k) = Inr (replicate k 0)" "len (replicate k (0::byte)) = int k"
    by (simp_all add: make_bytes_nat len_def)
  show ?thesis
  proof (cases "R + k \<le> S \<and> j = int (R + k)")
    case True
    then have le: "R + k \<le> S" and jj: "j = int (R + k)" by simp_all
    have s: "slice xs (int R) (int (R + k)) = Inr (take k (drop R xs))"
      using slice_nat [of R "R + k" xs] b le by simp
    have c: "copy_to (replicate k 0) (int 0) (int k) (take k (drop R xs))
               = Inr (take k (drop R xs))"
      using copy_to_fit [of 0 "take k (drop R xs)" k "replicate k 0"] b le by simp
    have "take k (occupied b) = take k (drop R xs)"
      using take_rotate_split [of R xs k] b k le by (simp add: occ)
    then show ?thesis
      using s c k(1,2) unfolding jj k(1) b(1,3,5) mk(1) 
      by (simp add: elems_def mk(2) del: of_nat_add)
  next
    case False
    let ?c1 = "S - R"
    define J where "J = R + k - S"
    have J: "j = int J" "S \<le> R + k" "J \<le> R" "k = ?c1 + J"
      using False j b k by (auto simp: J_def)
    have s1: "slice xs (int R) (int S) = Inr (drop R xs)"
      using slice_nat [of R S xs] b by simp
    have c1: "copy_to (replicate k 0) (int 0) (int ?c1) (drop R xs)
                = Inr (drop R xs @ replicate J 0)"
      using copy_to_fit [of 0 "drop R xs" ?c1 "replicate k 0"] b J by simp
    have s2: "slice xs (int 0) (int J) = Inr (take J xs)"
      using slice_nat [of 0 J xs] b J by simp
    have c2: "copy_to (drop R xs @ replicate J 0) (int ?c1) (int k) (take J xs)
                = Inr (drop R xs @ take J xs)"
      using copy_to_fit [of ?c1 "take J xs" k "drop R xs @ replicate J 0"] b J by simp
    have l: "len (drop R xs @ replicate J (0::byte)) = int k"
      using b J by (simp add: len_def)
    have "take k (occupied b) = drop R xs @ take J xs"
    proof (cases "R + k = S")
      case True
      then show ?thesis
        using take_rotate_split [of R xs k] b k by (simp add: occ J_def)
    next
      case ne: False
      have "k - ?c1 = J" using J by simp
      then show ?thesis
        using take_rotate_split [of R xs k] b k ne J(2) by (simp add: occ)
    qed
    moreover have e: "int S - int R = int ?c1" "\<not> int R < int J"
      using b J by simp_all
    ultimately show ?thesis
      using s1 c1 s2 c2 k(1,2) unfolding J(1) k(1) b(1,3,5) mk(1)
      by (simp add: elems_def mk(2) lx l e del: of_nat_add of_nat_diff)
  qed
qed


lemma takeWhile_all_iff: "length (takeWhile P xs) < length xs \<longleftrightarrow> (\<exists>x\<in>set xs. \<not> P x)"
  by (induction xs) auto

lemma ReadBytes_wf:
  fixes delim :: byte
  assumes "wf b" "\<not> IsEmpty b"
  defines "k \<equiv> length (takeWhile (\<lambda>c. c \<noteq> delim) (occupied b))"
  shows "ReadBytes b delim =
           Some (Inr ((Some (take (Suc k) (occupied b)),
                       if delim \<in> set (occupied b) then None else Some EOF), b))"
proof -
  have pos: "0 < Length b"
    using wf_empty_iff [OF assms(1)] wf_Length [OF assms(1)] assms(2) by simp
  have ne: "\<not> (w b = r b \<and> \<not> isFull b)"
    using assms(2) by (auto simp: IsEmpty_def)
  have len: "length (occupied b) = nat (Length b)"
    by (rule length_occupied [OF assms(1)])
  have kL: "k < nat (Length b) \<longleftrightarrow> delim \<in> set (occupied b)"
    using takeWhile_all_iff [of "\<lambda>c. c \<noteq> delim" "occupied b"] by (simp add: k_def len)
  have loop: "ReadBytes_loop b delim 0 =
           Some (Inr (if k < nat (Length b)
                      then (int k + 1, (r b + int k) mod size_b b + 1, None)
                      else (Length b, w b, Some EOF)))"
    using ReadBytes_loop_scan [OF assms(1) pos, of 0 delim] by (simp add: k_def Let_def)
  show ?thesis
  proof (cases "k < nat (Length b)")
    case True
    have j: "((r b + int k) mod size_b b + 1 = r b + (int k + 1) \<and> r b + (int k + 1) \<le> size_b b)
           \<or> ((r b + int k) mod size_b b + 1 = r b + (int k + 1) - size_b b
               \<and> size_b b \<le> r b + (int k + 1))"
    proof -
      from assms(1) obtain xs R W S where b: "buf b = Some xs" "length xs = S" "r b = int R"
        "w b = int W" "size_b b = int S" "R < S" "W < S" by (rule wf_nat)
      have "Length b \<le> int S" using wf_Length [OF assms(1)] b by (simp add: Capacity_def)
      then have kS: "k < S" using True by linarith
      define R' where "R' = (if R + k < S then R + k else R + k - S)"
      have R': "(R + k) mod S = R'"
        using b kS by (auto simp: R'_def mod_if)
      have md: "(r b + int k) mod size_b b = int R'"
        using b by (simp add: zmod_int flip: R')
      show ?thesis
        unfolding md unfolding b(3,5) using b(6) kS
        by (cases "R + k < S") (simp_all add: R'_def)
    qed
    define jj where "jj = (r b + int k) mod size_b b + 1"
    define mm where "mm = int k + 1"
    have loop': "ReadBytes_loop b delim 0 = Some (Inr (mm, jj, None))"
      using loop True by (simp add: jj_def mm_def)
    have j': "(jj = r b + mm \<and> r b + mm \<le> size_b b)
            \<or> (jj = r b + mm - size_b b \<and> size_b b \<le> r b + mm)"
      using j unfolding jj_def mm_def .
    have m: "0 < mm" "mm \<le> Length b" "nat mm = Suc k"
      using True by (simp_all add: mm_def)
    note cp = ReadBytes_copy [OF assms(1) m(1,2) j', of None]
    have "delim \<in> set (occupied b)" using True kL by simp
    then show ?thesis
      using ne by (simp add: ReadBytes_def loop' cp m(3))
  next
    case False
    have j: "(w b = r b + Length b \<and> r b + Length b \<le> size_b b)
           \<or> (w b = r b + Length b - size_b b \<and> size_b b \<le> r b + Length b)"
      using assms(1) pos by (auto simp: wf_def Length_def split: if_splits)
    have "k = nat (Length b)"
      using False length_takeWhile_le [of "\<lambda>c. c \<noteq> delim" "occupied b"] by (simp add: k_def len)
    then have t: "take (Suc k) (occupied b) = take (nat (Length b)) (occupied b)"
      by (simp add: len)
    note cp = ReadBytes_copy [OF assms(1) pos order_refl j, of "Some EOF"]
    have loop': "ReadBytes_loop b delim 0 = Some (Inr (Length b, w b, Some EOF))"
      using loop False by simp
    have "delim \<notin> set (occupied b)" using False kL by simp
    then show ?thesis
      using ne by (simp add: ReadBytes_def loop' cp t)
  qed
qed


lemma ReadBytesFunc_loop_scan:
  assumes "wf b" "i \<le> nat (Length b)"
  shows "ReadBytesFunc_loop b f (Length b) (int i) =
           Inr (let k = i + length (takeWhile (\<lambda>c. \<not> f c) (drop i (occupied b)))
                in if k < nat (Length b) then (int k + 1, None) else (Length b, Some EOF))"
  using assms(2)
proof (induction "nat (Length b) - i" arbitrary: i)
  case 0
  then have "int i = Length b" "drop i (occupied b) = []"
    using wf_Length [OF assms(1)] by (auto simp: length_occupied [OF assms(1)])
  then show ?case
    by (subst ReadBytesFunc_loop.simps) simp
next
  case (Suc n)
  then have i: "i < nat (Length b)" by simp
  then have d: "drop i (occupied b) = occupied b ! i # drop (Suc i) (occupied b)"
    by (intro Cons_nth_drop_Suc [symmetric]) (simp add: length_occupied [OF assms(1)])
  have step: "ReadBytesFunc_loop b f (Length b) (int i) =
                (if f (occupied b ! i) then Inr (int i + 1, None)
                 else ReadBytesFunc_loop b f (Length b) (int i + 1))"
    using ring_index(1,2) [OF assms(1) i] i
    by (subst ReadBytesFunc_loop.simps) (simp add: zless_nat_eq_int_zless)
  show ?case
  proof (cases "f (occupied b ! i)")
    case True
    then show ?thesis
      using step i by (simp add: d)
  next
    case False
    have "n = nat (Length b) - Suc i" "Suc i \<le> nat (Length b)"
      using Suc(2) i by simp_all
    from Suc(1) [OF this] False show ?thesis
      using step by (simp add: d add.commute)
  qed
qed

lemma byteRange_prefix:
  assumes "wf b" "0 < m" "m \<le> Length b"
  shows "pbind (go_rem (r b + m) (size_b b)) (\<lambda>j. byteRange b (r b) j)
           = Inr (Some (take (nat m) (occupied b)))"
proof -
  from assms(1) obtain xs R W S where b: "buf b = Some xs" "length xs = S" "r b = int R"
    "w b = int W" "size_b b = int S" "R < S" "W < S"
    and al: "int S \<le> 2 ^ 48" by (rule wf_nat)
  define k where "k = nat m"
  have k: "m = int k" "0 < k" "k \<le> nat (Length b)" "k \<le> S"
    using assms(2,3) wf_Length [OF assms(1)] b by (auto simp: k_def Capacity_def)
  have occ: "take k (occupied b) = take k (rotate R xs)"
    using b k by (simp add: occupied_def elems_def min_def)
  define J where "J = (if R + k < S then R + k else R + k - S)"
  have J: "(R + k) mod S = J" "J < S"
    using b k by (auto simp: J_def mod_if)
  have rem: "go_rem (r b + m) (size_b b) = Inr (int J)"
    using go_rem_nat [of S "R + k"] b k J by simp
  have full: "isFull b" if "k = S"
  proof -
    have "Length b \<le> int S" using wf_Length [OF assms(1)] b by (simp add: Capacity_def)
    moreover have "int S \<le> Length b" using that k(1) assms(3) by simp
    ultimately have "Length b = int S" by simp
    then show ?thesis using wf_full_iff [OF assms(1)] b by simp
  qed
  have "(if R = J then (if isFull b then Some (rotate R xs) else None)
         else Some (take (if R < J then J - R else S - R + J) (rotate R xs)))
        = Some (take k (rotate R xs))"
  proof (cases "k = S")
    case True
    then show ?thesis using b full by (simp add: J_def)
  next
    case False
    then have "k < S" using k by simp
    then show ?thesis using b k by (auto simp: J_def)
  qed
  then show ?thesis
    unfolding rem using byteRange_nat [OF b(1,2,5,6) J(2) al] b(3) k(1) by (simp add: occ)
qed


text \<open>Everything up to and including the first element satisfying \<open>f\<close>; the whole list
  when no element does.\<close>

lemma upto_first_delim:
  "delim \<in> set xs \<Longrightarrow> upto_first (\<lambda>c. c = delim) xs = takeWhile (\<lambda>c. c \<noteq> delim) xs @ [delim]"
  by (induction xs) (auto simp: upto_first_def)

lemma upto_first_none:
  assumes "\<forall>c\<in>set xs. \<not> f c"
  shows "upto_first f xs = xs"
proof -
  have "takeWhile (\<lambda>c. \<not> f c) xs = xs" using assms by simp
  then show ?thesis by (simp only: upto_first_def) simp
qed

lemma pbind_assoc: "pbind (pbind m f) g = pbind m (\<lambda>x. pbind (f x) g)"
  by (cases m) simp_all

lemma ReadBytesFunc_wf:
  fixes f :: "byte \<Rightarrow> bool"
  assumes "wf b" "\<not> IsEmpty b"
  shows "ReadBytesFunc b f =
           Inr ((Some (upto_first f (occupied b)),
                 if \<exists>c\<in>set (occupied b). f c then None else Some EOF), b)"
proof -
  define k where "k = length (takeWhile (\<lambda>c. \<not> f c) (occupied b))"
  have pos: "0 < Length b"
    using wf_empty_iff [OF assms(1)] wf_Length [OF assms(1)] assms(2) by simp
  have len: "length (occupied b) = nat (Length b)"
    by (rule length_occupied [OF assms(1)])
  have kL: "k < nat (Length b) \<longleftrightarrow> (\<exists>c\<in>set (occupied b). f c)"
    using takeWhile_all_iff [of "\<lambda>c. \<not> f c" "occupied b"] by (simp add: k_def len)
  have loop: "ReadBytesFunc_loop b f (Length b) 0 =
           Inr (if k < nat (Length b) then (int k + 1, None) else (Length b, Some EOF))"
    using ReadBytesFunc_loop_scan [OF assms(1), of 0 f] by (simp add: k_def Let_def)
  show ?thesis
  proof (cases "k < nat (Length b)")
    case True
    define mm where "mm = int k + 1"
    have m: "0 < mm" "mm \<le> Length b" "nat mm = Suc k"
      using True by (simp_all add: mm_def)
    have loop': "ReadBytesFunc_loop b f (Length b) 0 = Inr (mm, None)"
      using loop True by (simp add: mm_def)
    have "\<exists>c\<in>set (occupied b). f c" using True kL by simp
    then show ?thesis
      using m(1) byteRange_prefix [OF assms(1) m(1,2)]
      by (simp add: ReadBytesFunc_def loop' m(3) upto_first_def flip: k_def pbind_assoc)
  next
    case False
    have "k = nat (Length b)"
      using False length_takeWhile_le [of "\<lambda>c. \<not> f c" "occupied b"] by (simp add: k_def len)
    then have t: "take (Suc k) (occupied b) = take (nat (Length b)) (occupied b)"
      by (simp add: len)
    have loop': "ReadBytesFunc_loop b f (Length b) 0 = Inr (Length b, Some EOF)"
      using loop False by simp
    have "\<not> (\<exists>c\<in>set (occupied b). f c)" using False kL by simp
    then show ?thesis
      using pos byteRange_prefix [OF assms(1) pos order_refl]
      by (simp add: ReadBytesFunc_def loop' t upto_first_def flip: k_def pbind_assoc)
  qed
qed

section \<open>Scanning for a delimiter does not consume\<close>

text \<open>
  Claim C5 (as stated: when the occupied region contains the delimiter, \<open>ReadBytes\<close>
  returns everything up to and including the first match and advances the read cursor
  past it, so that a second call scans the remaining bytes) fails on the code: neither
  \<open>ReadBytes\<close> nor \<open>ReadBytesFunc\<close> assigns the read cursor. On the occupied bytes
  \<open>"ab,cd,ef"\<close> the call with delimiter \<open>','\<close> returns \<open>"ab,"\<close> and leaves the buffer as it
  was, so the next call returns \<open>"ab,"\<close> again.
\<close>

theorem read_bytes_advances_counterexample:
  "ReadBytes ex_csv 44 = Some (Inr ((Some [97, 98, 44], None), ex_csv))
   \<and> ReadBytesFunc ex_csv ((=) 44) = Inr ((Some [97, 98, 44], None), ex_csv)
   \<and> r ex_csv = 0"
  by code_simp


text \<open>
  Claim C5, amended. On a non-empty buffer satisfying the invariant, \<open>ReadBytes\<close> (and
  \<open>ReadBytesFunc\<close> with the predicate "equals the delimiter") returns a fresh copy of the
  occupied bytes from the read cursor up to and including the first byte equal to the
  delimiter, with no error signal; when no occupied byte matches, it returns all
  occupied bytes and \<open>io.EOF\<close>. In both cases the buffer, the read cursor included, is
  left unchanged: a second call returns the same bytes.
\<close>

theorem read_bytes_peeks:
  assumes "wf b" "\<not> IsEmpty b"
  shows "(delim \<in> set (occupied b) \<longrightarrow>
            ReadBytes b delim
              = Some (Inr ((Some (takeWhile (\<lambda>c. c \<noteq> delim) (occupied b) @ [delim]), None), b))
          \<and> ReadBytesFunc b (\<lambda>c. c = delim)
              = Inr ((Some (takeWhile (\<lambda>c. c \<noteq> delim) (occupied b) @ [delim]), None), b))
       \<and> (delim \<notin> set (occupied b) \<longrightarrow>
            ReadBytes b delim = Some (Inr ((Some (occupied b), Some EOF), b))
          \<and> ReadBytesFunc b (\<lambda>c. c = delim) = Inr ((Some (occupied b), Some EOF), b))"
proof -
  have rb: "ReadBytes b delim =
              Some (Inr ((Some (upto_first (\<lambda>c. c = delim) (occupied b)),
                          if delim \<in> set (occupied b) then None else Some EOF), b))"
    using ReadBytes_wf [OF assms, of delim] by (simp add: upto_first_def)
  have rf: "ReadBytesFunc b (\<lambda>c. c = delim) =
              Inr ((Some (upto_first (\<lambda>c. c = delim) (occupied b)),
                    if delim \<in> set (occupied b) then None else Some EOF), b)"
    using ReadBytesFunc_wf [OF assms, of "\<lambda>c. c = delim"] by simp
  show ?thesis
  proof (cases "delim \<in> set (occupied b)")
    case True
    then show ?thesis
      using rb rf by (simp add: upto_first_delim)
  next
    case False
    then have "upto_first (\<lambda>c. c = delim) (occupied b) = occupied b"
      by (intro upto_first_none) auto
    then show ?thesis
      using rb rf False by simp
  qed
qed

theorem read_bytes_peeks_witness:
  "wf ex_csv \<and> \<not> IsEmpty ex_csv
   \<and> ReadBytes ex_csv 44 = Some (Inr ((Some [97, 98, 44], None), ex_csv))
   \<and> wf ex_ef \<and> \<not> IsEmpty ex_ef
   \<and> ReadBytes ex_ef 44 = Some (Inr ((Some [101, 102], Some EOF), ex_ef))"
proof -
  have occ: "occupied ex_csv = [97, 98, 44, 99, 100, 44, 101, 102]" "occupied ex_ef = [101, 102]"
    by code_simp+
  have pre: "wf ex_csv" "\<not> IsEmpty ex_csv" "wf ex_ef" "\<not> IsEmpty ex_ef"
    by code_simp+
  show ?thesis
    using read_bytes_peeks [OF pre(1,2), of 44] read_bytes_peeks [OF pre(3,4), of 44] pre
    by (simp add: occ)
qed

section \<open>ByteRange with indices that are not negative\<close>

text \<open>With both indices in \<open>[0, Length()]\<close> and in order, \<open>ByteRange\<close> returns the
  sub-region of the occupied bytes; its range checks report \<open>ErrOutOfRange\<close> and
  \<open>ErrInvalidSliceIndices\<close>. A negative index always ends in \<open>ErrOutOfRange\<close>.\<close>

lemma option_New_Start_End [simp]:
  "option_New \<lparr>o_start = 0, o_end = 0\<rparr> [Start s, End e] [\<lambda>opt. Inr (opt\<lparr>o_end := d\<rparr>)]
     = Inr \<lparr>o_start = s, o_end = e\<rparr>"
  "option_New \<lparr>o_start = 0, o_end = 0\<rparr> [Start s] [\<lambda>opt. Inr (opt\<lparr>o_end := d\<rparr>)]
     = Inr \<lparr>o_start = s, o_end = d\<rparr>"
  "option_New \<lparr>o_start = 0, o_end = 0\<rparr> [] [\<lambda>opt. Inr (opt\<lparr>o_end := d\<rparr>)]
     = Inr \<lparr>o_start = 0, o_end = d\<rparr>"
  by (simp_all add: option_New_def Start_def End_def)

lemma byteRange_cong:
  "i \<noteq> j \<Longrightarrow> buf b' = buf b \<Longrightarrow> size_b b' = size_b b \<Longrightarrow> byteRange b' i j = byteRange b i j"
  by (simp add: byteRange_def)

lemma ByteRange_nonneg:
  assumes "wf b" "0 \<le> s" "s \<le> e" "e \<le> Length b"
  shows "ByteRange b [Start s, End e] =
           Inr (if s = e then None
                else Some (take (nat (e - s)) (drop (nat s) (occupied b))))"
proof (cases "s = e")
  case True
  then show ?thesis
    using assms by (simp add: ByteRange_def)
next
  case False
  then have lt: "s < e" using assms(3) by simp
  have S: "0 < size_b b" "0 \<le> r b" "r b < size_b b" "Length b \<le> size_b b"
    using assms(1) wf_Length [OF assms(1)] by (simp_all add: wf_def Capacity_def)
  have chk: "\<not> s < 0" "\<not> Length b < s" "\<not> e < 0" "\<not> Length b < e" "\<not> e < s"
    using assms lt by simp_all
  have BR: "ByteRange b [Start s, End e] =
              pbind (go_rem (r b + s) (size_b b)) (\<lambda>i.
              pbind (go_rem (r b + e) (size_b b)) (\<lambda>j. byteRange b i j))"
    using chk False by (simp add: ByteRange_def Let_def)
  show ?thesis
  proof (cases "s = 0")
    case True
    have "go_rem (r b + 0) (size_b b) = Inr (r b)"
      using S by (simp add: go_rem_nonneg)
    then show ?thesis
      unfolding BR using byteRange_prefix [OF assms(1), of e] lt assms(4) True
      by simp
  next
    case s0: False
    then have sp: "0 < s" "s \<le> Length b" using assms lt by simp_all
    define b' where "b' = b\<lparr>r := (r b + s) mod size_b b, isFull := False\<rparr>"
    note aw = advance_wf [OF assms(1) sp, folded b'_def]
    have m: "0 < e - s" "e - s \<le> Length b'"
      using lt assms(4) aw(2) by simp_all
    have i: "go_rem (r b + s) (size_b b) = Inr ((r b + s) mod size_b b)"
      using S sp by (intro go_rem_nonneg) simp_all
    have j: "go_rem (r b + e) (size_b b) = Inr ((r b + e) mod size_b b)"
      using S sp lt by (intro go_rem_nonneg) simp_all
    have je: "(r b' + (e - s)) mod size_b b' = (r b + e) mod size_b b"
      by (simp add: b'_def mod_simps)
    have j': "go_rem (r b' + (e - s)) (size_b b') = Inr ((r b + e) mod size_b b)"
      unfolding je [symmetric] using aw(1) m by (intro go_rem_nonneg) (simp_all add: wf_def)
    have ne: "(r b + s) mod size_b b \<noteq> (r b + e) mod size_b b"
    proof
      assume "(r b + s) mod size_b b = (r b + e) mod size_b b"
      then have "(r b + e) mod size_b b = (r b + s) mod size_b b" by simp
      then have "size_b b dvd (r b + e) - (r b + s)"
        by (simp only: mod_eq_dvd_iff)
      then have "size_b b dvd e - s" by simp
      then have "size_b b \<le> e - s"
        using lt by (intro zdvd_imp_le) simp_all
      then show False using sp S assms(4) by simp
    qed
    have rb': "r b' = (r b + s) mod size_b b" by (simp add: b'_def)
    have "byteRange b' (r b') ((r b + e) mod size_b b)
            = byteRange b (r b') ((r b + e) mod size_b b)"
      using ne unfolding rb' by (intro byteRange_cong) (simp_all add: b'_def)
    then have "byteRange b ((r b + s) mod size_b b) ((r b + e) mod size_b b)
            = byteRange b' (r b') ((r b + e) mod size_b b)"
      by (simp add: rb')
    also have "\<dots> = Inr (Some (take (nat (e - s)) (occupied b')))"
      using byteRange_prefix [OF aw(1) m] by (simp add: j')
    finally show ?thesis
      using False by (simp add: BR i j aw(3))
  qed
qed

lemma ByteRange_errors:
  assumes "wf b"
  shows "s < 0 \<Longrightarrow> - (2 ^ 63) \<le> s \<Longrightarrow> ByteRange b [Start s, End e] = Inl (Panic ErrOutOfRange)"
    and "0 \<le> s \<Longrightarrow> Length b < s \<Longrightarrow> ByteRange b [Start s, End e] = Inl (Panic ErrOutOfRange)"
    and "0 \<le> s \<Longrightarrow> s \<le> Length b \<Longrightarrow> e < 0 \<Longrightarrow> - (2 ^ 63) \<le> e
           \<Longrightarrow> ByteRange b [Start s, End e] = Inl (Panic ErrOutOfRange)"
    and "0 \<le> s \<Longrightarrow> s \<le> Length b \<Longrightarrow> Length b < e
           \<Longrightarrow> ByteRange b [Start s, End e] = Inl (Panic ErrOutOfRange)"
    and "0 \<le> s \<Longrightarrow> s \<le> Length b \<Longrightarrow> 0 \<le> e \<Longrightarrow> e < s
           \<Longrightarrow> ByteRange b [Start s, End e] = Inl (Panic ErrInvalidSliceIndices)"
proof -
  have L: "0 \<le> Length b" "Length b < 2 ^ 62"
    using wf_Length [OF assms] assms by (simp_all add: wf_def Capacity_def)
  have neg: "int64 (Length b - x) < 0 \<or> Length b < int64 (Length b - x)"
    if "x < 0" "- (2 ^ 63) \<le> x" for x
  proof (cases "Length b - x < 2 ^ 63")
    case True
    then have "int64 (Length b - x) = Length b - x"
      using that L by (intro int64_id) simp_all
    then show ?thesis using that by simp
  next
    case False
    define y where "y = Length b - x - 2 ^ 63"
    have y: "0 \<le> y" "y < 2 ^ 64" "Length b - x = y + 2 ^ 63" "y < 2 ^ 63"
      using False that L by (simp_all add: y_def)
    have "(y + 2 ^ 63 + 2 ^ 63) mod 2 ^ 64 = (y + 1 * 2 ^ 64) mod (2 ^ 64 :: int)"
      by simp
    also have "\<dots> = y mod 2 ^ 64"
      by (rule mod_mult_self1)
    also have "\<dots> = y"
      using y by simp
    finally have "int64 (Length b - x) = y - 2 ^ 63"
      by (simp add: int64_def y(3))
    then show ?thesis using y by simp
  qed
  show "s < 0 \<Longrightarrow> - (2 ^ 63) \<le> s \<Longrightarrow> ByteRange b [Start s, End e] = Inl (Panic ErrOutOfRange)"
    using neg [of s] L by (auto simp: ByteRange_def Let_def)
  show "0 \<le> s \<Longrightarrow> Length b < s \<Longrightarrow> ByteRange b [Start s, End e] = Inl (Panic ErrOutOfRange)"
    by (simp add: ByteRange_def Let_def)
  show "0 \<le> s \<Longrightarrow> s \<le> Length b \<Longrightarrow> e < 0 \<Longrightarrow> - (2 ^ 63) \<le> e
           \<Longrightarrow> ByteRange b [Start s, End e] = Inl (Panic ErrOutOfRange)"
    using neg [of e] L by (auto simp: ByteRange_def Let_def)
  show "0 \<le> s \<Longrightarrow> s \<le> Length b \<Longrightarrow> Length b < e
           \<Longrightarrow> ByteRange b [Start s, End e] = Inl (Panic ErrOutOfRange)"
    by (simp add: ByteRange_def Let_def)
  show "0 \<le> s \<Longrightarrow> s \<le> Length b \<Longrightarrow> 0 \<le> e \<Longrightarrow> e < s
           \<Longrightarrow> ByteRange b [Start s, End e] = Inl (Panic ErrInvalidSliceIndices)"
    by (simp add: ByteRange_def Let_def)
qed

end
